theory Spec2Isabelle
  imports Main "HOL-Library.AList" "HOL-Library.Multiset"
begin

section \<open>The earliest-deadline-first charging algorithm of lesson 2\<close>

text \<open>
  The notebook \<^verbatim>\<open>lesson2_implementing_a_custom_algorithm\<close> defines the class
  \<^verbatim>\<open>EarliestDeadlineFirstAlgo\<close> with a constructor and the method \<^verbatim>\<open>schedule\<close>.
  Charging rates are modelled as Python integers (the default increment is the integer 1),
  that is as \<^typ>\<open>int\<close>.
\<close>

subsection \<open>Data\<close>

text \<open>
  An EV object. \<^verbatim>\<open>schedule\<close> reads the attributes \<^verbatim>\<open>station_id\<close> and
  \<^verbatim>\<open>estimated_departure\<close> only; whatever else an EV carries is the extension part
  of the record scheme.
\<close>

record ev =
  station_id :: string
  estimated_departure :: int

text \<open>
  The schedule is a Python dict from station ids to lists of rates. A dict keeps its keys
  in insertion order and assigning to a present key keeps the key's place: this is what
  \<^const>\<open>AList.update\<close> does on an association list.
\<close>

type_synonym schedule_dict = "(string \<times> int list) list"

text \<open>The two methods of \<^verbatim>\<open>self.interface\<close> that the algorithm calls.\<close>

record interface =
  max_pilot_signal :: "string \<Rightarrow> int"
  is_feasible :: "schedule_dict \<Rightarrow> int \<Rightarrow> bool"

text \<open>The attributes the constructor sets.\<close>

record algo =
  increment :: int
  max_recompute :: int

text \<open>The implicit exceptions of subscripting a dict and a list.\<close>

datatype py_error = KeyError | IndexError

text \<open>
  The objects the method can reach: the caller's list \<^verbatim>\<open>active_evs\<close>, the local dict
  \<^verbatim>\<open>schedule\<close>, and, as a trace, the arguments of the calls of
  \<^verbatim>\<open>interface.is_feasible\<close> made so far, oldest first.
\<close>

record 'a world =
  active_evs_obj :: "'a ev_scheme list"
  schedule_obj :: schedule_dict
  oracle_calls :: "schedule_dict list"

subsection \<open>The constructor\<close>

text \<open>
  \<^verbatim>\<open>def __init__(self, increment=1): self._increment = increment; self.max_recompute = 1\<close>
\<close>

definition EarliestDeadlineFirstAlgo :: "int \<Rightarrow> algo" where
  "EarliestDeadlineFirstAlgo inc = \<lparr>increment = inc, max_recompute = 1\<rparr>"

subsection \<open>The method schedule\<close>

text \<open>\<^verbatim>\<open>self.interface.is_feasible(schedule, 0)\<close>: the verdict, and the call recorded.\<close>

definition call_is_feasible :: "interface \<Rightarrow> 'a world \<Rightarrow> bool \<times> 'a world" where
  "call_is_feasible iface w =
     (is_feasible iface (schedule_obj w) 0,
      w\<lparr>oracle_calls := oracle_calls w @ [schedule_obj w]\<rparr>)"

text \<open>\<^verbatim>\<open>schedule[sid][0]\<close>\<close>

definition getitem0 :: "schedule_dict \<Rightarrow> string \<Rightarrow> py_error + int" where
  "getitem0 sch sid =
     (case map_of sch sid of
        None \<Rightarrow> Inl KeyError
      | Some [] \<Rightarrow> Inl IndexError
      | Some (r # rs) \<Rightarrow> Inr r)"

text \<open>\<^verbatim>\<open>schedule[sid][0] -= inc\<close>\<close>

definition isub0 :: "schedule_dict \<Rightarrow> string \<Rightarrow> int \<Rightarrow> py_error + schedule_dict" where
  "isub0 sch sid inc =
     (case map_of sch sid of
        None \<Rightarrow> Inl KeyError
      | Some [] \<Rightarrow> Inl IndexError
      | Some (r # rs) \<Rightarrow> Inr (AList.update sid ((r - inc) # rs) sch))"

text \<open>
  The inner loop
  \<^verbatim>\<open>
  while not self.interface.is_feasible(schedule, 0):
      schedule[ev.station_id][0] -= self._increment
      if schedule[ev.station_id][0] < 0:
          schedule[ev.station_id] = [0]
          break
  \<close>
  The result \<open>None\<close> is a loop that never ends, \<open>Some (Inl e)\<close> an exception,
  \<open>Some (Inr w)\<close> the state in which the loop is left.
\<close>

partial_function (option) while_loop ::
  "int \<Rightarrow> interface \<Rightarrow> string \<Rightarrow> 'a world \<Rightarrow> (py_error + 'a world) option" where
  "while_loop inc iface sid w =
     (let (ok, w1) = call_is_feasible iface w in
      if ok then Some (Inr w1)
      else
        (case isub0 (schedule_obj w1) sid inc of
           Inl e \<Rightarrow> Some (Inl e)
         | Inr sch2 \<Rightarrow>
             (case getitem0 sch2 sid of
                Inl e \<Rightarrow> Some (Inl e)
              | Inr r \<Rightarrow>
                  if r < 0 then Some (Inr (w1\<lparr>schedule_obj := AList.update sid [0] sch2\<rparr>))
                  else while_loop inc iface sid (w1\<lparr>schedule_obj := sch2\<rparr>))))"

declare while_loop.simps [code]

text \<open>
  The body of the \<^verbatim>\<open>for\<close> loop: the station is first given its maximum rate,
  \<^verbatim>\<open>schedule[ev.station_id] = [self.interface.max_pilot_signal(ev.station_id)]\<close>,
  then the inner loop runs.
\<close>

definition loop_body ::
  "algo \<Rightarrow> interface \<Rightarrow> 'a ev_scheme \<Rightarrow> 'a world \<Rightarrow> (py_error + 'a world) option" where
  "loop_body a iface e w =
     while_loop (increment a) iface (station_id e)
       (w\<lparr>schedule_obj :=
            AList.update (station_id e) [max_pilot_signal iface (station_id e)]
              (schedule_obj w)\<rparr>)"

text \<open>\<^verbatim>\<open>for ev in sorted_evs: ...\<close>\<close>

fun for_loop ::
  "algo \<Rightarrow> interface \<Rightarrow> 'a ev_scheme list \<Rightarrow> 'a world \<Rightarrow> (py_error + 'a world) option" where
  "for_loop a iface [] w = Some (Inr w)"
| "for_loop a iface (e # es) w =
     (case loop_body a iface e w of
        None \<Rightarrow> None
      | Some (Inl err) \<Rightarrow> Some (Inl err)
      | Some (Inr w') \<Rightarrow> for_loop a iface es w')"

text \<open>\<^verbatim>\<open>{ev.station_id: [0] for ev in active_evs}\<close>\<close>

definition zero_schedule :: "'a ev_scheme list \<Rightarrow> schedule_dict" where
  "zero_schedule evs = fold (\<lambda>e sch. AList.update (station_id e) [0] sch) evs []"

text \<open>
  \<^verbatim>\<open>sorted(active_evs, key=lambda x: x.estimated_departure)\<close>: Python's \<^verbatim>\<open>sorted\<close> is
  a stable sort and builds a new list.
\<close>

definition sorted_evs :: "'a ev_scheme list \<Rightarrow> 'a ev_scheme list" where
  "sorted_evs evs = sort_key estimated_departure evs"

text \<open>The state when the \<^verbatim>\<open>for\<close> loop is entered.\<close>

definition initial_world :: "'a ev_scheme list \<Rightarrow> 'a world" where
  "initial_world evs =
     \<lparr>active_evs_obj = evs, schedule_obj = zero_schedule evs, oracle_calls = []\<rparr>"

text \<open>The whole method, with the final state of all objects.\<close>

definition schedule_run ::
  "algo \<Rightarrow> interface \<Rightarrow> 'a ev_scheme list \<Rightarrow> (py_error + 'a world) option" where
  "schedule_run a iface evs =
     (let w0 = initial_world evs
      in for_loop a iface (sorted_evs (active_evs_obj w0)) w0)"

text \<open>The method's return value, \<^verbatim>\<open>return schedule\<close>.\<close>

definition schedule ::
  "algo \<Rightarrow> interface \<Rightarrow> 'a ev_scheme list \<Rightarrow> (py_error + schedule_dict) option" where
  "schedule a iface evs = map_option (map_sum id schedule_obj) (schedule_run a iface evs)"

subsection \<open>Observing a run\<close>

text \<open>
  The state of the objects when the \<^verbatim>\<open>for\<close> loop has processed the first \<open>i\<close>
  EVs of \<^verbatim>\<open>sorted_evs\<close>; the EV processed next is \<open>sorted_evs evs ! i\<close>.
\<close>

definition state_before ::
  "algo \<Rightarrow> interface \<Rightarrow> 'a ev_scheme list \<Rightarrow> nat \<Rightarrow> (py_error + 'a world) option" where
  "state_before a iface evs i =
     for_loop a iface (take i (sorted_evs evs)) (initial_world evs)"

text \<open>The oracle calls made between an earlier state and a later one.\<close>

definition evaluations :: "'a world \<Rightarrow> 'a world \<Rightarrow> schedule_dict list" where
  "evaluations w w' = drop (length (oracle_calls w)) (oracle_calls w')"

subsection \<open>Notions of the specification\<close>

text \<open>The oracle accepts the partial schedule with rate \<open>r\<close> inserted for the station.\<close>

definition accepts :: "interface \<Rightarrow> schedule_dict \<Rightarrow> string \<Rightarrow> int \<Rightarrow> bool" where
  "accepts iface sch sid r = is_feasible iface (AList.update sid [r] sch) 0"

text \<open>
  A value of the form \<open>M - k * inc\<close> lying in \<open>[0, M]\<close>, for a positive \<open>inc\<close>
  (see \<open>candidate_iff\<close>).
\<close>

definition candidate :: "int \<Rightarrow> int \<Rightarrow> int \<Rightarrow> bool" where
  "candidate M inc r = (0 \<le> r \<and> r \<le> M \<and> inc dvd (M - r))"

text \<open>
  The contract of the rate search in the specification's words: \<open>r\<close> is the greatest
  candidate that the oracle accepts.
\<close>

definition greatest_feasible ::
  "interface \<Rightarrow> schedule_dict \<Rightarrow> string \<Rightarrow> int \<Rightarrow> int \<Rightarrow> bool" where
  "greatest_feasible iface sch sid inc r =
     (candidate (max_pilot_signal iface sid) inc r \<and> accepts iface sch sid r \<and>
      (\<forall>r' \<in> {r<..max_pilot_signal iface sid}.
         candidate (max_pilot_signal iface sid) inc r' \<longrightarrow> \<not> accepts iface sch sid r'))"

text \<open>
  The monotonicity assumption of the specification: if rate \<open>r\<close> is feasible then every
  rate in \<open>[0, r]\<close> is feasible for the same partial schedule.
\<close>

definition monotone_oracle :: "interface \<Rightarrow> bool" where
  "monotone_oracle iface =
     (\<forall>sch sid r r'. accepts iface sch sid r \<longrightarrow> 0 \<le> r' \<longrightarrow> r' \<le> r
        \<longrightarrow> accepts iface sch sid r')"

text \<open>
  The schedule of a state has been verified: it is the argument of an oracle call made so
  far, and the oracle's verdict on it is that it is feasible.
\<close>

definition verified :: "interface \<Rightarrow> 'a world \<Rightarrow> bool" where
  "verified iface w =
     (schedule_obj w \<in> set (oracle_calls w) \<and> is_feasible iface (schedule_obj w) 0)"


subsection \<open>Example networks\<close>

text \<open>
  An oracle with one shared limit: a schedule is feasible when the sum of all its rates
  is at most \<open>cap\<close>.
\<close>

definition total_rate :: "schedule_dict \<Rightarrow> int" where
  "total_rate sch = sum_list (concat (map snd sch))"

definition limit_feasible :: "int \<Rightarrow> schedule_dict \<Rightarrow> int \<Rightarrow> bool" where
  "limit_feasible cap sch t = (total_rate sch \<le> cap)"

definition limit_iface :: "(string \<Rightarrow> int) \<Rightarrow> int \<Rightarrow> interface" where
  "limit_iface mps cap = \<lparr>max_pilot_signal = mps, is_feasible = limit_feasible cap\<rparr>"

text \<open>Every station with the same maximum pilot signal.\<close>

definition flat_mps :: "int \<Rightarrow> string \<Rightarrow> int" where
  "flat_mps M sid = M"

text \<open>
  The scenario of the specification: session A (departure 3, maximum rate 32), session B
  (departure 1, maximum rate 16), and the limit 40 on the sum of the rates.
\<close>

definition ev_A :: ev where
  "ev_A = \<lparr>station_id = ''A'', estimated_departure = 3\<rparr>"

definition ev_B :: ev where
  "ev_B = \<lparr>station_id = ''B'', estimated_departure = 1\<rparr>"

definition mps_AB :: "string \<Rightarrow> int" where
  "mps_AB sid = (if sid = ''A'' then 32 else 16)"

text \<open>
  The same two sessions as objects that carry one more attribute, which \<^verbatim>\<open>schedule\<close>
  never reads.
\<close>

record session = ev +
  session_id :: string

definition session_A :: session where
  "session_A = \<lparr>station_id = ''A'', estimated_departure = 3, session_id = ''s-1''\<rparr>"

definition session_B :: session where
  "session_B = \<lparr>station_id = ''B'', estimated_departure = 1, session_id = ''s-2''\<rparr>"

subsection \<open>The inner loop\<close>

lemma isub0_single: "map_of sch sid = Some [r] \<Longrightarrow> isub0 sch sid inc = Inr (AList.update sid [r - inc] sch)"
  by (simp add: isub0_def)

lemma getitem0_update: "getitem0 (AList.update sid (r # rs) sch) sid = Inr r"
  by (simp add: getitem0_def update_conv')

lemma while_loop_unfold:
  assumes "schedule_obj w = AList.update sid [r] sch"
  shows "while_loop inc iface sid w =
    (if is_feasible iface (schedule_obj w) 0
     then Some (Inr (w\<lparr>oracle_calls := oracle_calls w @ [schedule_obj w]\<rparr>))
     else if r - inc < 0
     then Some (Inr (w\<lparr>oracle_calls := oracle_calls w @ [schedule_obj w],
                        schedule_obj := AList.update sid [0] sch\<rparr>))
     else while_loop inc iface sid
            (w\<lparr>oracle_calls := oracle_calls w @ [schedule_obj w],
               schedule_obj := AList.update sid [r - inc] sch\<rparr>))"
proof -
  have m: "map_of (schedule_obj w) sid = Some [r]"
    by (simp add: assms update_conv')
  show ?thesis
    apply (subst while_loop.simps)
    apply (simp add: call_is_feasible_def isub0_single [OF m] getitem0_update)
    apply (simp add: assms)
    done
qed


lemma while_loop_total:
  assumes inc: "0 < inc"
  shows "schedule_obj w = AList.update sid [r] sch \<Longrightarrow>
    \<exists>n rf. while_loop inc iface sid w =
        Some (Inr (w\<lparr>oracle_calls := oracle_calls w @
                        map (\<lambda>i. AList.update sid [r - int i * inc] sch) [0..<Suc n],
                      schedule_obj := AList.update sid [rf] sch\<rparr>))
      \<and> (\<forall>i<n. \<not> accepts iface sch sid (r - int i * inc))
      \<and> (0 < n \<longrightarrow> 0 \<le> r - int n * inc)
      \<and> (if accepts iface sch sid (r - int n * inc) then rf = r - int n * inc
          else rf = 0 \<and> r - int (Suc n) * inc < 0)"
proof (induction "nat r" arbitrary: r w rule: less_induct)
  case less
  note so = less.prems
  let ?w1 = "w\<lparr>oracle_calls := oracle_calls w @ [schedule_obj w],
                schedule_obj := AList.update sid [r - inc] sch\<rparr>"
  show ?case
  proof (cases "accepts iface sch sid r")
    case True
    then have "while_loop inc iface sid w =
        Some (Inr (w\<lparr>oracle_calls := oracle_calls w @
                        map (\<lambda>i. AList.update sid [r - int i * inc] sch) [0..<Suc 0],
                      schedule_obj := AList.update sid [r] sch\<rparr>))"
      by (simp add: while_loop_unfold [OF so] accepts_def so [symmetric])
    with True show ?thesis
      by (intro exI [of _ 0] exI [of _ r]) simp
  next
    case False
    show ?thesis
    proof (cases "r - inc < 0")
      case True
      with False have "while_loop inc iface sid w =
        Some (Inr (w\<lparr>oracle_calls := oracle_calls w @
                        map (\<lambda>i. AList.update sid [r - int i * inc] sch) [0..<Suc 0],
                      schedule_obj := AList.update sid [0] sch\<rparr>))"
        by (simp add: while_loop_unfold [OF so] accepts_def so [symmetric])
      with True False show ?thesis
        by (intro exI [of _ 0] exI [of _ 0]) simp
    next
      case nonneg: False
      have step: "while_loop inc iface sid w = while_loop inc iface sid ?w1"
        using False nonneg by (simp add: while_loop_unfold [OF so] accepts_def so [symmetric])
      have lt: "nat (r - inc) < nat r" using inc nonneg by linarith
      have so1: "schedule_obj ?w1 = AList.update sid [r - inc] sch" by simp
      from less.hyps [OF lt so1] obtain n rf where
        run: "while_loop inc iface sid ?w1 =
          Some (Inr (?w1\<lparr>oracle_calls := oracle_calls ?w1 @
                        map (\<lambda>i. AList.update sid [r - inc - int i * inc] sch) [0..<Suc n],
                      schedule_obj := AList.update sid [rf] sch\<rparr>))"
        and rej: "\<forall>i<n. \<not> accepts iface sch sid (r - inc - int i * inc)"
        and pos: "0 < n \<longrightarrow> 0 \<le> r - inc - int n * inc"
        and fin: "if accepts iface sch sid (r - inc - int n * inc) then rf = r - inc - int n * inc
          else rf = 0 \<and> r - inc - int (Suc n) * inc < 0"
        by blast
      have shift: "r - inc - int i * inc = r - int (Suc i) * inc" for i
        by (simp add: algebra_simps)
      have calls: "oracle_calls ?w1 @
            map (\<lambda>i. AList.update sid [r - inc - int i * inc] sch) [0..<Suc n]
          = oracle_calls w @ map (\<lambda>i. AList.update sid [r - int i * inc] sch) [0..<Suc (Suc n)]"
        unfolding shift
        by (simp add: so map_upt_Suc [of _ "Suc n"] del: upt_Suc)
      have r1: "while_loop inc iface sid w =
          Some (Inr (w\<lparr>oracle_calls := oracle_calls w @
                        map (\<lambda>i. AList.update sid [r - int i * inc] sch) [0..<Suc (Suc n)],
                      schedule_obj := AList.update sid [rf] sch\<rparr>))"
        unfolding step run calls by simp
      have r2: "\<forall>i<Suc n. \<not> accepts iface sch sid (r - int i * inc)"
      proof (intro allI impI)
        fix i assume "i < Suc n"
        show "\<not> accepts iface sch sid (r - int i * inc)"
        proof (cases i)
          case 0 with False show ?thesis by simp
        next
          case (Suc j)
          with \<open>i < Suc n\<close> rej have "\<not> accepts iface sch sid (r - inc - int j * inc)" by simp
          then show ?thesis unfolding shift Suc .
        qed
      qed
      have r3: "0 \<le> r - int (Suc n) * inc"
      proof (cases n)
        case 0 with nonneg show ?thesis by simp
      next
        case (Suc m) with pos show ?thesis unfolding shift by simp
      qed
      have r4: "if accepts iface sch sid (r - int (Suc n) * inc) then rf = r - int (Suc n) * inc
          else rf = 0 \<and> r - int (Suc (Suc n)) * inc < 0"
        using fin unfolding shift .
      from r1 r2 r3 r4 show ?thesis
        by (intro exI [of _ "Suc n"] exI [of _ rf]) blast
    qed
  qed
qed


lemma while_loop_partial:
  assumes "while_loop inc iface sid w = Some res"
  shows "schedule_obj w = AList.update sid [r] sch \<Longrightarrow>
    \<exists>w' rf. res = Inr w' \<and> schedule_obj w' = AList.update sid [rf] sch
      \<and> active_evs_obj w' = active_evs_obj w"
  using assms
proof (induction arbitrary: r rule: while_loop.raw_induct [rotated 1, consumes 1])
  case (1 loop inc iface sid w res)
  note so = \<open>schedule_obj w = AList.update sid [r] sch\<close>
  have m: "isub0 (AList.update sid [r] sch) sid inc = Inr (AList.update sid [r - inc] sch)"
    by (simp add: isub0_single update_conv')
  show ?case
  proof (cases "is_feasible iface (schedule_obj w) 0")
    case True
    with 1(2) so show ?thesis
      by (auto simp: call_is_feasible_def)
  next
    case False
    show ?thesis
    proof (cases "r - inc < 0")
      case True
      with False 1(2) show ?thesis
        by (auto simp: call_is_feasible_def m getitem0_update so)
    next
      case nonneg: False
      let ?w1 = "w\<lparr>oracle_calls := oracle_calls w @ [schedule_obj w],
                schedule_obj := AList.update sid [r - inc] sch\<rparr>"
      from False nonneg 1(2) have "loop inc iface sid ?w1 = Some res"
        by (simp add: call_is_feasible_def m getitem0_update so)
      from 1(1) [OF this, of "r - inc"] show ?thesis by simp
    qed
  qed
qed

lemma while_loop_diverges_aux:
  assumes "while_loop inc iface sid w = Some res"
  shows "schedule_obj w = AList.update sid [r] sch \<Longrightarrow> inc \<le> 0 \<Longrightarrow> 0 \<le> r \<Longrightarrow>
    (\<forall>r'\<ge>r. \<not> accepts iface sch sid r') \<Longrightarrow> False"
  using assms
proof (induction arbitrary: r rule: while_loop.raw_induct [rotated 1, consumes 1])
  case (1 loop inc iface sid w res)
  note so = \<open>schedule_obj w = AList.update sid [r] sch\<close>
  have m: "isub0 (AList.update sid [r] sch) sid inc = Inr (AList.update sid [r - inc] sch)"
    by (simp add: isub0_single update_conv')
  let ?w1 = "w\<lparr>oracle_calls := oracle_calls w @ [schedule_obj w],
                schedule_obj := AList.update sid [r - inc] sch\<rparr>"
  from 1(6) have "\<not> is_feasible iface (schedule_obj w) 0"
    by (auto simp: so accepts_def)
  moreover have "\<not> r - inc < 0" using 1(4,5) by simp
  ultimately have "loop inc iface sid ?w1 = Some res"
    using 1(2) by (simp add: call_is_feasible_def m getitem0_update so)
  from 1(1) [OF this, of "r - inc"] 1(4,5,6) show False by simp
qed

subsection \<open>The outer loop\<close>

lemma loop_body_total:
  assumes "0 < increment a"
  shows "\<exists>n rf. loop_body a iface e w =
        Some (Inr (w\<lparr>oracle_calls := oracle_calls w @
                        map (\<lambda>i. AList.update (station_id e)
                                   [max_pilot_signal iface (station_id e) - int i * increment a]
                                   (schedule_obj w)) [0..<Suc n],
                      schedule_obj := AList.update (station_id e) [rf] (schedule_obj w)\<rparr>))
      \<and> (\<forall>i<n. \<not> accepts iface (schedule_obj w) (station_id e)
                    (max_pilot_signal iface (station_id e) - int i * increment a))
      \<and> (0 < n \<longrightarrow> 0 \<le> max_pilot_signal iface (station_id e) - int n * increment a)
      \<and> (if accepts iface (schedule_obj w) (station_id e)
               (max_pilot_signal iface (station_id e) - int n * increment a)
          then rf = max_pilot_signal iface (station_id e) - int n * increment a
          else rf = 0 \<and> max_pilot_signal iface (station_id e) - int (Suc n) * increment a < 0)"
proof -
  let ?w0 = "w\<lparr>schedule_obj :=
            AList.update (station_id e) [max_pilot_signal iface (station_id e)]
              (schedule_obj w)\<rparr>"
  have "schedule_obj ?w0 =
      AList.update (station_id e) [max_pilot_signal iface (station_id e)] (schedule_obj w)"
    by simp
  from while_loop_total [OF assms this, of iface] show ?thesis
    unfolding loop_body_def by simp
qed

lemma loop_body_partial:
  assumes "loop_body a iface e w = Some res"
  shows "\<exists>w' rf. res = Inr w'
      \<and> schedule_obj w' = AList.update (station_id e) [rf] (schedule_obj w)
      \<and> active_evs_obj w' = active_evs_obj w"
proof -
  let ?w0 = "w\<lparr>schedule_obj :=
            AList.update (station_id e) [max_pilot_signal iface (station_id e)]
              (schedule_obj w)\<rparr>"
  have "schedule_obj ?w0 =
      AList.update (station_id e) [max_pilot_signal iface (station_id e)] (schedule_obj w)"
    by simp
  from while_loop_partial [OF assms [unfolded loop_body_def] this] show ?thesis
    by simp
qed

lemma loop_body_returns:
  "0 < increment a \<Longrightarrow> \<exists>w'. loop_body a iface e w = Some (Inr w')"
  using loop_body_total [of a iface e w] by blast

lemma for_loop_append:
  "for_loop a iface (xs @ ys) w =
     (case for_loop a iface xs w of
        None \<Rightarrow> None
      | Some (Inl err) \<Rightarrow> Some (Inl err)
      | Some (Inr w') \<Rightarrow> for_loop a iface ys w')"
  by (induction xs arbitrary: w) (auto split: option.splits sum.splits)

lemma for_loop_returns:
  "0 < increment a \<Longrightarrow> \<exists>w'. for_loop a iface es w = Some (Inr w')"
proof (induction es arbitrary: w)
  case Nil
  show ?case by simp
next
  case (Cons e es)
  from loop_body_returns [OF Cons.prems] obtain w1 where "loop_body a iface e w = Some (Inr w1)"
    by blast
  with Cons.IH [OF Cons.prems, of w1] show ?case by simp
qed

lemma state_before_0: "state_before a iface evs 0 = Some (Inr (initial_world evs))"
  by (simp add: state_before_def)

lemma state_before_Suc:
  assumes "i < length evs"
  shows "state_before a iface evs (Suc i) =
     (case state_before a iface evs i of
        None \<Rightarrow> None
      | Some (Inl err) \<Rightarrow> Some (Inl err)
      | Some (Inr w) \<Rightarrow> loop_body a iface (sorted_evs evs ! i) w)"
proof -
  have "i < length (sorted_evs evs)" using assms by (simp add: sorted_evs_def)
  then have "take (Suc i) (sorted_evs evs) = take i (sorted_evs evs) @ [sorted_evs evs ! i]"
    by (rule take_Suc_conv_app_nth)
  then show ?thesis
    by (simp add: state_before_def for_loop_append split: option.splits sum.splits)
qed

lemma state_before_length:
  "state_before a iface evs (length evs) = schedule_run a iface evs"
  by (simp add: state_before_def schedule_run_def initial_world_def sorted_evs_def)

lemma schedule_run_from:
  assumes "i \<le> length evs"
  shows "schedule_run a iface evs =
     (case state_before a iface evs i of
        None \<Rightarrow> None
      | Some (Inl err) \<Rightarrow> Some (Inl err)
      | Some (Inr w) \<Rightarrow> for_loop a iface (drop i (sorted_evs evs)) w)"
proof -
  have "for_loop a iface (take i (sorted_evs evs) @ drop i (sorted_evs evs)) (initial_world evs)
      = schedule_run a iface evs"
    by (simp add: schedule_run_def initial_world_def)
  then show ?thesis
    unfolding for_loop_append state_before_def by simp
qed

lemma schedule_run_returns:
  "0 < increment a \<Longrightarrow> \<exists>w. schedule_run a iface evs = Some (Inr w)"
  unfolding schedule_run_def Let_def by (rule for_loop_returns)

subsection \<open>The schedule dict\<close>

lemma set_update_subset: "set (AList.update k v al) \<subseteq> insert (k, v) (set al)"
  by (induction al) auto

lemma map_of_fold_zero:
  "map_of (fold (\<lambda>e sch. AList.update (station_id e) [0] sch) evs acc) sid =
     (if sid \<in> station_id ` set evs then Some [0] else map_of acc sid)"
  by (induction evs arbitrary: acc) (auto simp: update_conv')

lemma map_of_zero_schedule:
  "map_of (zero_schedule evs) sid = (if sid \<in> station_id ` set evs then Some [0] else None)"
  by (simp add: zero_schedule_def map_of_fold_zero)

lemma keys_fold_zero:
  "fst ` set (fold (\<lambda>e sch. AList.update (station_id e) [0] sch) evs acc) =
     station_id ` set evs \<union> fst ` set acc"
  by (induction evs arbitrary: acc) (auto simp: dom_update)

lemma keys_zero_schedule: "fst ` set (zero_schedule evs) = station_id ` set evs"
  by (simp add: zero_schedule_def keys_fold_zero)

lemma distinct_fold_zero:
  "distinct (map fst acc) \<Longrightarrow>
   distinct (map fst (fold (\<lambda>e sch. AList.update (station_id e) [0] sch) evs acc))"
  by (induction evs arbitrary: acc) (auto simp: distinct_update)

lemma distinct_zero_schedule: "distinct (map fst (zero_schedule evs))"
  by (simp add: zero_schedule_def distinct_fold_zero)

lemma values_fold_zero:
  "\<forall>(sid, rs) \<in> set acc. rs = [0] \<Longrightarrow>
   \<forall>(sid, rs) \<in> set (fold (\<lambda>e sch. AList.update (station_id e) [0] sch) evs acc). rs = [0]"
proof (induction evs arbitrary: acc)
  case Nil
  then show ?case by simp
next
  case (Cons e evs)
  have "\<forall>(sid, rs) \<in> set (AList.update (station_id e) [0] acc). rs = [0]"
    using Cons.prems set_update_subset [of "station_id e" "[0]" acc] by auto
  from Cons.IH [OF this] show ?case by simp
qed

lemma values_zero_schedule: "\<forall>(sid, rs) \<in> set (zero_schedule evs). rs = [0]"
  unfolding zero_schedule_def by (rule values_fold_zero) simp

lemma for_loop_invariant:
  assumes "for_loop a iface es w = Some res"
    and "I (schedule_obj w)"
    and step: "\<And>sch e rf. e \<in> set es \<Longrightarrow> I sch \<Longrightarrow> I (AList.update (station_id e) [rf] sch)"
  shows "\<exists>w'. res = Inr w' \<and> I (schedule_obj w') \<and> active_evs_obj w' = active_evs_obj w"
  using assms
proof (induction es arbitrary: w)
  case Nil
  then show ?case by auto
next
  case (Cons e es)
  from Cons.prems(1) obtain r1 where r1: "loop_body a iface e w = Some r1"
    by (auto split: option.splits)
  from loop_body_partial [OF r1] obtain w1 rf where w1: "r1 = Inr w1"
    "schedule_obj w1 = AList.update (station_id e) [rf] (schedule_obj w)"
    "active_evs_obj w1 = active_evs_obj w" by blast
  have I1: "I (schedule_obj w1)"
    unfolding w1(2) using Cons.prems(2) by (intro Cons.prems(3)) simp_all
  from Cons.prems(1) r1 w1 have run: "for_loop a iface es w1 = Some res" by simp
  have "\<exists>w'. res = Inr w' \<and> I (schedule_obj w') \<and> active_evs_obj w' = active_evs_obj w1"
    by (rule Cons.IH [OF run I1]) (simp add: Cons.prems(3))
  with w1(3) show ?case by simp
qed

lemma for_loop_keys:
  assumes "for_loop a iface es w = Some (Inr w')"
  shows "fst ` set (schedule_obj w') = station_id ` set es \<union> fst ` set (schedule_obj w)"
  using assms
proof (induction es arbitrary: w)
  case Nil
  then show ?case by simp
next
  case (Cons e es)
  from Cons.prems(1) obtain r1 where r1: "loop_body a iface e w = Some r1"
    by (auto split: option.splits)
  from loop_body_partial [OF r1] obtain w1 rf where w1: "r1 = Inr w1"
    "schedule_obj w1 = AList.update (station_id e) [rf] (schedule_obj w)" by blast
  from Cons.prems(1) r1 w1 have run: "for_loop a iface es w1 = Some (Inr w')" by simp
  from Cons.IH [OF run] show ?case
    by (auto simp: w1(2) dom_update)
qed

subsection \<open>Frame: the caller's list\<close>

lemma run_AB:
  "schedule_run (EarliestDeadlineFirstAlgo 8) (limit_iface mps_AB 40) [ev_A, ev_B] =
     Some (Inr \<lparr>active_evs_obj = [ev_A, ev_B],
                schedule_obj = [(''A'', [24]), (''B'', [16])],
                oracle_calls = [[(''A'', [0]), (''B'', [16])], [(''A'', [32]), (''B'', [16])],
                                [(''A'', [24]), (''B'', [16])]]\<rparr>)"
  by code_simp

text \<open>
  C9. The call leaves the caller's list of EVs, and hence every EV in it, as it was:
  whenever \<^verbatim>\<open>schedule\<close> returns, the list object holds what it held at the call; and for
  a positive increment it does return.
\<close>

theorem schedule_leaves_active_evs:
  "(0 < increment a \<longrightarrow> (\<exists>w. schedule_run a iface evs = Some (Inr w))) \<and>
   (\<forall>res. schedule_run a iface evs = Some res \<longrightarrow>
      (\<exists>w. res = Inr w \<and> active_evs_obj w = evs))"
proof (intro conjI allI impI)
  assume "0 < increment a"
  then show "\<exists>w. schedule_run a iface evs = Some (Inr w)" by (rule schedule_run_returns)
next
  fix res assume "schedule_run a iface evs = Some res"
  then have "for_loop a iface (sorted_evs evs) (initial_world evs) = Some res"
    by (simp add: schedule_run_def initial_world_def)
  from for_loop_invariant [OF this, of "\<lambda>sch. True"]
  show "\<exists>w. res = Inr w \<and> active_evs_obj w = evs"
    by (simp add: initial_world_def)
qed

theorem schedule_leaves_active_evs_witness:
  "0 < increment (EarliestDeadlineFirstAlgo 8) \<and>
   (\<exists>w. schedule_run (EarliestDeadlineFirstAlgo 8) (limit_iface mps_AB 40) [ev_A, ev_B] =
      Some (Inr w) \<and> active_evs_obj w = [ev_A, ev_B])"
proof -
  have pos: "0 < increment (EarliestDeadlineFirstAlgo 8)"
    by (simp add: EarliestDeadlineFirstAlgo_def)
  from schedule_leaves_active_evs
    [of "EarliestDeadlineFirstAlgo 8" "limit_iface mps_AB 40" "[ev_A, ev_B]"] pos
  show ?thesis by blast
qed

subsection \<open>The shape of the returned dict\<close>

lemma singleton_update:
  "\<forall>(sid, rs) \<in> set sch. length rs = 1 \<Longrightarrow>
   \<forall>(sid, rs) \<in> set (AList.update k [r] sch). length rs = 1"
  using set_update_subset [of k "[r]" sch] by auto

lemma schedule_Some_iff:
  "schedule a iface evs = Some res \<longleftrightarrow>
     (\<exists>res'. schedule_run a iface evs = Some res' \<and> res = map_sum id schedule_obj res')"
  by (auto simp: schedule_def)

text \<open>
  C6. The dict is initialised with every station of the input mapped to \<^verbatim>\<open>[0]\<close> and
  nothing else; whenever \<^verbatim>\<open>schedule\<close> returns (and it does for a positive increment), it
  returns a dict whose keys are exactly the station ids of the input, each once, and whose
  values are lists of length 1; and the constructor sets \<^verbatim>\<open>max_recompute\<close> to 1.
\<close>

theorem schedule_dict_shape:
  "(\<forall>sid. map_of (zero_schedule evs) sid =
            (if sid \<in> station_id ` set evs then Some [0] else None)) \<and>
   (0 < increment a \<longrightarrow> (\<exists>sch. schedule a iface evs = Some (Inr sch))) \<and>
   (\<forall>res. schedule a iface evs = Some res \<longrightarrow>
      (\<exists>sch. res = Inr sch \<and> fst ` set sch = station_id ` set evs \<and>
         distinct (map fst sch) \<and> (\<forall>(sid, rs) \<in> set sch. length rs = 1))) \<and>
   max_recompute (EarliestDeadlineFirstAlgo inc) = 1"
proof (intro conjI allI impI)
  fix sid
  show "map_of (zero_schedule evs) sid = (if sid \<in> station_id ` set evs then Some [0] else None)"
    by (rule map_of_zero_schedule)
next
  assume "0 < increment a"
  from schedule_run_returns [OF this, of iface evs]
  show "\<exists>sch. schedule a iface evs = Some (Inr sch)"
    by (auto simp: schedule_def)
next
  fix res assume "schedule a iface evs = Some res"
  then obtain res' where run: "schedule_run a iface evs = Some res'"
    and res: "res = map_sum id schedule_obj res'"
    unfolding schedule_Some_iff by blast
  from run have loop: "for_loop a iface (sorted_evs evs) (initial_world evs) = Some res'"
    by (simp add: schedule_run_def initial_world_def)
  let ?I = "\<lambda>sch. distinct (map fst sch) \<and> (\<forall>(sid, rs) \<in> set sch. length rs = 1)"
  have init: "?I (schedule_obj (initial_world evs))"
    using values_zero_schedule [of evs] by (auto simp: initial_world_def distinct_zero_schedule)
  have step: "?I (AList.update k [r] sch)" if "?I sch" for k r sch
    using that distinct_update [of sch k "[r]"] singleton_update [of sch k r] by blast
  have "\<exists>w. res' = Inr w \<and> ?I (schedule_obj w)
      \<and> active_evs_obj w = active_evs_obj (initial_world evs)"
    using loop init by (rule for_loop_invariant [where I = ?I]) (rule step)
  then obtain w where w: "res' = Inr w" "?I (schedule_obj w)" by blast
  from for_loop_keys [OF loop [unfolded w(1)]]
  have "fst ` set (schedule_obj w) = station_id ` set evs"
    by (simp add: sorted_evs_def initial_world_def keys_zero_schedule)
  with w res show "\<exists>sch. res = Inr sch \<and> fst ` set sch = station_id ` set evs \<and>
         distinct (map fst sch) \<and> (\<forall>(sid, rs) \<in> set sch. length rs = 1)"
    by simp
next
  show "max_recompute (EarliestDeadlineFirstAlgo inc) = 1"
    by (simp add: EarliestDeadlineFirstAlgo_def)
qed

lemma schedule_AB:
  "schedule (EarliestDeadlineFirstAlgo 8) (limit_iface mps_AB 40) [ev_A, ev_B] =
     Some (Inr [(''A'', [24]), (''B'', [16])])"
  by (simp add: schedule_def run_AB)

theorem schedule_dict_shape_witness:
  "0 < increment (EarliestDeadlineFirstAlgo 8) \<and>
   (\<forall>sid. map_of (zero_schedule [ev_A, ev_B]) sid =
            (if sid \<in> station_id ` set [ev_A, ev_B] then Some [0] else None)) \<and>
   schedule (EarliestDeadlineFirstAlgo 8) (limit_iface mps_AB 40) [ev_A, ev_B] =
     Some (Inr [(''A'', [24]), (''B'', [16])]) \<and>
   fst ` set [(''A'', [24::int]), (''B'', [16])] = station_id ` set [ev_A, ev_B] \<and>
   distinct (map fst [(''A'', [24::int]), (''B'', [16])]) \<and>
   length [24::int] = 1 \<and> length [16::int] = 1 \<and>
   max_recompute (EarliestDeadlineFirstAlgo 8) = 1"
proof -
  have pos: "0 < increment (EarliestDeadlineFirstAlgo 8)"
    by (simp add: EarliestDeadlineFirstAlgo_def)
  from schedule_dict_shape
    [of "[ev_A, ev_B]" "EarliestDeadlineFirstAlgo 8" "limit_iface mps_AB 40" 8]
    pos schedule_AB
  show ?thesis by simp
qed

subsection \<open>The processing order\<close>

lemma sorted_evs_sorted: "sorted (map estimated_departure (sorted_evs evs))"
  by (simp add: sorted_evs_def)

lemma sorted_evs_AB: "sorted_evs [ev_A, ev_B] = [ev_B, ev_A]"
  by (simp add: sorted_evs_def ev_A_def ev_B_def)

lemma while_loop_first_call:
  assumes "while_loop inc iface sid w = Some res"
  shows "res = Inr w' \<Longrightarrow> \<exists>cs. oracle_calls w' = oracle_calls w @ schedule_obj w # cs"
  using assms
proof (induction arbitrary: w' rule: while_loop.raw_induct [rotated 1, consumes 1])
  case (1 loop inc iface sid w res)
  note res = \<open>res = Inr w'\<close>
  show ?case
  proof (cases "is_feasible iface (schedule_obj w) 0")
    case True
    with 1(2) res show ?thesis
      by (auto simp: call_is_feasible_def)
  next
    case False
    show ?thesis
    proof (cases "isub0 (schedule_obj w) sid inc")
      case (Inl e)
      with False 1(2) res show ?thesis
        by (auto simp: call_is_feasible_def)
    next
      case (Inr sch2)
      show ?thesis
      proof (cases "getitem0 sch2 sid")
        case (Inl e)
        with False Inr 1(2) res show ?thesis
          by (auto simp: call_is_feasible_def)
      next
        case r: (Inr r)
        show ?thesis
        proof (cases "r < 0")
          case True
          with False Inr r 1(2) res show ?thesis
            by (auto simp: call_is_feasible_def)
        next
          case nonneg: False
          let ?w1 = "w\<lparr>oracle_calls := oracle_calls w @ [schedule_obj w], schedule_obj := sch2\<rparr>"
          from False Inr r nonneg 1(2) have "loop inc iface sid ?w1 = Some res"
            by (simp add: call_is_feasible_def)
          from 1(1) [OF this res] obtain cs
            where "oracle_calls w' = oracle_calls ?w1 @ schedule_obj ?w1 # cs" by blast
          then have "oracle_calls w' = oracle_calls w @ schedule_obj w # (sch2 # cs)" by simp
          then show ?thesis by blast
        qed
      qed
    qed
  qed
qed

text \<open>
  A pass of the loop body that returns has committed one rate at the station of its EV
  and nowhere else, and has called the oracle, first on the schedule that gives the
  station its maximum pilot signal.
\<close>

lemma loop_body_effect:
  assumes "loop_body a iface e w = Some res"
  shows "\<exists>w' r cs. res = Inr w'
      \<and> schedule_obj w' = AList.update (station_id e) [r] (schedule_obj w)
      \<and> oracle_calls w' = oracle_calls w @
          AList.update (station_id e) [max_pilot_signal iface (station_id e)] (schedule_obj w) # cs"
proof -
  from loop_body_partial [OF assms] obtain w' r where w': "res = Inr w'"
    "schedule_obj w' = AList.update (station_id e) [r] (schedule_obj w)" by blast
  let ?w0 = "w\<lparr>schedule_obj :=
            AList.update (station_id e) [max_pilot_signal iface (station_id e)]
              (schedule_obj w)\<rparr>"
  from assms have "while_loop (increment a) iface (station_id e) ?w0 = Some res"
    by (simp add: loop_body_def)
  from while_loop_first_call [OF this w'(1)] obtain cs
    where "oracle_calls w' = oracle_calls ?w0 @ schedule_obj ?w0 # cs" by blast
  then have "oracle_calls w' = oracle_calls w @
      AList.update (station_id e) [max_pilot_signal iface (station_id e)] (schedule_obj w) # cs"
    by simp
  with w' show ?thesis by blast
qed

text \<open>
  The states through which the loop over a list passes: one before each EV it reaches
  and one after the last it completes.
\<close>

lemma for_loop_chain:
  "\<exists>ws. ws \<noteq> [] \<and> ws ! 0 = w \<and> length ws \<le> Suc (length es)
     \<and> (\<forall>i. Suc i < length ws \<longrightarrow>
           loop_body a iface (es ! i) (ws ! i) = Some (Inr (ws ! Suc i)))
     \<and> (length ws = Suc (length es) \<longrightarrow> for_loop a iface es w = Some (Inr (last ws)))
     \<and> (length ws < Suc (length es) \<longrightarrow>
           loop_body a iface (es ! (length ws - 1)) (last ws) = None
           \<and> for_loop a iface es w = None)"
proof (induction es arbitrary: w)
  case Nil
  show ?case by (rule exI [of _ "[w]"]) simp
next
  case (Cons e es)
  show ?case
  proof (cases "loop_body a iface e w")
    case None
    then show ?thesis by (intro exI [of _ "[w]"]) simp
  next
    case (Some res)
    from loop_body_partial [OF Some] obtain w1 where w1: "res = Inr w1" by blast
    from Cons.IH [of w1] obtain ws where ws: "ws \<noteq> []" "ws ! 0 = w1"
      "length ws \<le> Suc (length es)"
      "\<forall>i. Suc i < length ws \<longrightarrow>
           loop_body a iface (es ! i) (ws ! i) = Some (Inr (ws ! Suc i))"
      "length ws = Suc (length es) \<longrightarrow> for_loop a iface es w1 = Some (Inr (last ws))"
      "length ws < Suc (length es) \<longrightarrow>
           loop_body a iface (es ! (length ws - 1)) (last ws) = None
           \<and> for_loop a iface es w1 = None"
      by blast
    have step: "loop_body a iface ((e # es) ! i) ((w # ws) ! i) = Some (Inr ((w # ws) ! Suc i))"
      if "Suc i < length (w # ws)" for i
    proof (cases i)
      case 0
      with Some w1 ws(2) show ?thesis by simp
    next
      case (Suc k)
      with that ws(4) show ?thesis by simp
    qed
    have idx: "(e # es) ! (length (w # ws) - 1) = es ! (length ws - 1)"
      using ws(1) by (cases ws) simp_all
    show ?thesis
    proof (intro exI [of _ "w # ws"] conjI allI impI)
      show "w # ws \<noteq> []" by simp
      show "(w # ws) ! 0 = w" by simp
      show "length (w # ws) \<le> Suc (length (e # es))" using ws(3) by simp
      show "loop_body a iface ((e # es) ! i) ((w # ws) ! i) = Some (Inr ((w # ws) ! Suc i))"
        if "Suc i < length (w # ws)" for i using that by (rule step)
      show "for_loop a iface (e # es) w = Some (Inr (last (w # ws)))"
        if "length (w # ws) = Suc (length (e # es))"
        using that ws(1,5) Some w1 by simp
      show "loop_body a iface ((e # es) ! (length (w # ws) - 1)) (last (w # ws)) = None"
        if "length (w # ws) < Suc (length (e # es))"
        unfolding idx using that ws(1,6) by simp
      show "for_loop a iface (e # es) w = None"
        if "length (w # ws) < Suc (length (e # es))"
        using that ws(6) Some w1 by simp
    qed
  qed
qed


text \<open>
  C5. \<^verbatim>\<open>schedule\<close> passes through a sequence of states \<open>ws\<close>, the first being the
  state at the entry of the loop. The step from state \<open>i\<close> to state \<open>i + 1\<close> is the loop
  body run for the EV at position \<open>i\<close> of \<open>sorted_evs\<close>: it commits a rate at that EV's
  station and nowhere else, and it appends its oracle calls to the trace, the first of
  them on the station's maximum pilot signal. Either every EV is processed so and
  \<^verbatim>\<open>schedule\<close> returns the last state (always so for a positive increment), or the loop
  body of the next EV in this order never ends and nothing is returned. The list
  \<open>sorted_evs\<close> is a rearrangement of the input in ascending order of estimated
  departure, the EVs of any one departure time keep the order they have in the input,
  and so an EV with a strictly earlier departure has an earlier position, and its rate is
  committed before that of one with a later departure.
\<close>

theorem schedule_processing_order:
  "(\<exists>ws. ws \<noteq> [] \<and> ws ! 0 = initial_world evs \<and> length ws \<le> Suc (length evs)
      \<and> (\<forall>i. Suc i < length ws \<longrightarrow>
            loop_body a iface (sorted_evs evs ! i) (ws ! i) = Some (Inr (ws ! Suc i))
            \<and> (\<exists>r cs.
                 schedule_obj (ws ! Suc i) =
                   AList.update (station_id (sorted_evs evs ! i)) [r] (schedule_obj (ws ! i))
               \<and> oracle_calls (ws ! Suc i) =
                   oracle_calls (ws ! i) @
                   AList.update (station_id (sorted_evs evs ! i))
                     [max_pilot_signal iface (station_id (sorted_evs evs ! i))]
                     (schedule_obj (ws ! i)) # cs))
      \<and> (length ws = Suc (length evs) \<longrightarrow> schedule_run a iface evs = Some (Inr (last ws)))
      \<and> (length ws < Suc (length evs) \<longrightarrow>
            loop_body a iface (sorted_evs evs ! (length ws - 1)) (last ws) = None
            \<and> schedule_run a iface evs = None)
      \<and> (0 < increment a \<longrightarrow> length ws = Suc (length evs))) \<and>
   mset (sorted_evs evs) = mset evs \<and>
   sorted (map estimated_departure (sorted_evs evs)) \<and>
   (\<forall>d. filter (\<lambda>e. estimated_departure e = d) (sorted_evs evs) =
        filter (\<lambda>e. estimated_departure e = d) evs) \<and>
   (\<forall>i j. i < length evs \<longrightarrow> j < length evs \<longrightarrow>
      estimated_departure (sorted_evs evs ! i) < estimated_departure (sorted_evs evs ! j)
      \<longrightarrow> i < j)"
proof (intro conjI allI impI)
  have len: "length (sorted_evs evs) = length evs" by (simp add: sorted_evs_def)
  have run: "schedule_run a iface evs = for_loop a iface (sorted_evs evs) (initial_world evs)"
    by (simp add: schedule_run_def initial_world_def)
  from for_loop_chain [of "initial_world evs" "sorted_evs evs" a iface]
  obtain ws where ws: "ws \<noteq> []" "ws ! 0 = initial_world evs"
    "length ws \<le> Suc (length evs)"
    "\<forall>i. Suc i < length ws \<longrightarrow>
       loop_body a iface (sorted_evs evs ! i) (ws ! i) = Some (Inr (ws ! Suc i))"
    "length ws = Suc (length evs) \<longrightarrow> schedule_run a iface evs = Some (Inr (last ws))"
    "length ws < Suc (length evs) \<longrightarrow>
       loop_body a iface (sorted_evs evs ! (length ws - 1)) (last ws) = None
       \<and> schedule_run a iface evs = None"
    unfolding len run by blast
  have step: "loop_body a iface (sorted_evs evs ! i) (ws ! i) = Some (Inr (ws ! Suc i))
      \<and> (\<exists>r cs.
            schedule_obj (ws ! Suc i) =
              AList.update (station_id (sorted_evs evs ! i)) [r] (schedule_obj (ws ! i))
          \<and> oracle_calls (ws ! Suc i) =
              oracle_calls (ws ! i) @
              AList.update (station_id (sorted_evs evs ! i))
                [max_pilot_signal iface (station_id (sorted_evs evs ! i))]
                (schedule_obj (ws ! i)) # cs)"
    if "Suc i < length ws" for i
  proof -
    from that ws(4)
    have body: "loop_body a iface (sorted_evs evs ! i) (ws ! i) = Some (Inr (ws ! Suc i))"
      by blast
    from loop_body_effect [OF body] body show ?thesis by auto
  qed
  have full: "length ws = Suc (length evs)" if "0 < increment a"
  proof (rule ccontr)
    assume "length ws \<noteq> Suc (length evs)"
    with ws(3,6)
    have "loop_body a iface (sorted_evs evs ! (length ws - 1)) (last ws) = None" by simp
    with loop_body_returns [OF that, of iface "sorted_evs evs ! (length ws - 1)" "last ws"]
    show False by simp
  qed
  from ws(1,2,3,5,6) step full
  show "\<exists>ws. ws \<noteq> [] \<and> ws ! 0 = initial_world evs \<and> length ws \<le> Suc (length evs)
      \<and> (\<forall>i. Suc i < length ws \<longrightarrow>
            loop_body a iface (sorted_evs evs ! i) (ws ! i) = Some (Inr (ws ! Suc i))
            \<and> (\<exists>r cs.
                 schedule_obj (ws ! Suc i) =
                   AList.update (station_id (sorted_evs evs ! i)) [r] (schedule_obj (ws ! i))
               \<and> oracle_calls (ws ! Suc i) =
                   oracle_calls (ws ! i) @
                   AList.update (station_id (sorted_evs evs ! i))
                     [max_pilot_signal iface (station_id (sorted_evs evs ! i))]
                     (schedule_obj (ws ! i)) # cs))
      \<and> (length ws = Suc (length evs) \<longrightarrow> schedule_run a iface evs = Some (Inr (last ws)))
      \<and> (length ws < Suc (length evs) \<longrightarrow>
            loop_body a iface (sorted_evs evs ! (length ws - 1)) (last ws) = None
            \<and> schedule_run a iface evs = None)
      \<and> (0 < increment a \<longrightarrow> length ws = Suc (length evs))"
    by (intro exI [of _ ws]) blast
next
  show "mset (sorted_evs evs) = mset evs"
    by (simp add: sorted_evs_def)
next
  show "sorted (map estimated_departure (sorted_evs evs))"
    by (rule sorted_evs_sorted)
next
  fix d
  show "filter (\<lambda>e. estimated_departure e = d) (sorted_evs evs) =
        filter (\<lambda>e. estimated_departure e = d) evs"
    unfolding sorted_evs_def by (rule sort_key_stable)
next
  fix i j
  assume i: "i < length evs" and j: "j < length evs"
    and lt: "estimated_departure (sorted_evs evs ! i) < estimated_departure (sorted_evs evs ! j)"
  show "i < j"
  proof (rule ccontr)
    assume "\<not> i < j"
    then have "j \<le> i" by simp
    moreover have "i < length (map estimated_departure (sorted_evs evs))"
      using i by (simp add: sorted_evs_def)
    ultimately have "map estimated_departure (sorted_evs evs) ! j
        \<le> map estimated_departure (sorted_evs evs) ! i"
      using sorted_evs_sorted [of evs] by (simp add: sorted_iff_nth_mono)
    with i j lt show False by (simp add: sorted_evs_def)
  qed
qed

theorem schedule_processing_order_witness:
  "0 < increment (EarliestDeadlineFirstAlgo 8) \<and>
   estimated_departure (sorted_evs [ev_A, ev_B] ! 0)
     < estimated_departure (sorted_evs [ev_A, ev_B] ! 1) \<and>
   sorted_evs [ev_A, ev_B] = [ev_B, ev_A] \<and>
   (\<exists>w0 w1 w2 rB csB rA csA.
      w0 = initial_world [ev_A, ev_B]
    \<and> loop_body (EarliestDeadlineFirstAlgo 8) (limit_iface mps_AB 40) ev_B w0 = Some (Inr w1)
    \<and> schedule_obj w1 = AList.update ''B'' [rB] (schedule_obj w0)
    \<and> oracle_calls w1 = oracle_calls w0 @ AList.update ''B'' [16] (schedule_obj w0) # csB
    \<and> loop_body (EarliestDeadlineFirstAlgo 8) (limit_iface mps_AB 40) ev_A w1 = Some (Inr w2)
    \<and> schedule_obj w2 = AList.update ''A'' [rA] (schedule_obj w1)
    \<and> oracle_calls w2 = oracle_calls w1 @ AList.update ''A'' [32] (schedule_obj w1) # csA
    \<and> schedule_run (EarliestDeadlineFirstAlgo 8) (limit_iface mps_AB 40) [ev_A, ev_B]
        = Some (Inr w2))"
proof -
  let ?a = "EarliestDeadlineFirstAlgo 8" and ?iface = "limit_iface mps_AB 40"
  have pos: "0 < increment ?a" by (simp add: EarliestDeadlineFirstAlgo_def)
  have h: "estimated_departure (sorted_evs [ev_A, ev_B] ! 0)
     < estimated_departure (sorted_evs [ev_A, ev_B] ! 1)"
    by (simp add: sorted_evs_AB) (simp add: ev_A_def ev_B_def)
  have e0: "sorted_evs [ev_A, ev_B] ! 0 = ev_B" and e1: "sorted_evs [ev_A, ev_B] ! Suc 0 = ev_A"
    by (simp_all add: sorted_evs_AB)
  have sB: "station_id ev_B = ''B''" and sA: "station_id ev_A = ''A''"
    by (simp_all add: ev_A_def ev_B_def)
  have mB: "max_pilot_signal ?iface ''B'' = 16" and mA: "max_pilot_signal ?iface ''A'' = 32"
    by (simp_all add: limit_iface_def mps_AB_def)
  from schedule_processing_order [of "[ev_A, ev_B]" ?a ?iface]
  obtain ws where ws: "ws ! 0 = initial_world [ev_A, ev_B]"
    and steps: "\<forall>i. Suc i < length ws \<longrightarrow>
            loop_body ?a ?iface (sorted_evs [ev_A, ev_B] ! i) (ws ! i) = Some (Inr (ws ! Suc i))
            \<and> (\<exists>r cs.
                 schedule_obj (ws ! Suc i) =
                   AList.update (station_id (sorted_evs [ev_A, ev_B] ! i)) [r]
                     (schedule_obj (ws ! i))
               \<and> oracle_calls (ws ! Suc i) =
                   oracle_calls (ws ! i) @
                   AList.update (station_id (sorted_evs [ev_A, ev_B] ! i))
                     [max_pilot_signal ?iface (station_id (sorted_evs [ev_A, ev_B] ! i))]
                     (schedule_obj (ws ! i)) # cs)"
    and fin: "length ws = Suc (length [ev_A, ev_B]) \<longrightarrow>
        schedule_run ?a ?iface [ev_A, ev_B] = Some (Inr (last ws))"
    and full: "0 < increment ?a \<longrightarrow> length ws = Suc (length [ev_A, ev_B])"
    by blast
  from full pos have len: "length ws = 3" by simp
  then have "ws \<noteq> []" by auto
  then have "last ws = ws ! (length ws - 1)" by (rule last_conv_nth)
  with len have last: "last ws = ws ! 2" by simp
  from fin len last have ret: "schedule_run ?a ?iface [ev_A, ev_B] = Some (Inr (ws ! 2))"
    by simp
  from steps [rule_format, of 0] len obtain rB csB where
    b: "loop_body ?a ?iface ev_B (ws ! 0) = Some (Inr (ws ! 1))"
      "schedule_obj (ws ! 1) = AList.update ''B'' [rB] (schedule_obj (ws ! 0))"
      "oracle_calls (ws ! 1) = oracle_calls (ws ! 0) @
         AList.update ''B'' [16] (schedule_obj (ws ! 0)) # csB"
    unfolding e0 sB mB by auto
  from steps [rule_format, of "Suc 0"] len obtain rA csA where
    a: "loop_body ?a ?iface ev_A (ws ! 1) = Some (Inr (ws ! 2))"
      "schedule_obj (ws ! 2) = AList.update ''A'' [rA] (schedule_obj (ws ! 1))"
      "oracle_calls (ws ! 2) = oracle_calls (ws ! 1) @
         AList.update ''A'' [32] (schedule_obj (ws ! 1)) # csA"
    unfolding e1 sA mA by (auto simp: numeral_2_eq_2)
  from ws b a ret have "\<exists>w0 w1 w2 rB csB rA csA.
      w0 = initial_world [ev_A, ev_B]
    \<and> loop_body ?a ?iface ev_B w0 = Some (Inr w1)
    \<and> schedule_obj w1 = AList.update ''B'' [rB] (schedule_obj w0)
    \<and> oracle_calls w1 = oracle_calls w0 @ AList.update ''B'' [16] (schedule_obj w0) # csB
    \<and> loop_body ?a ?iface ev_A w1 = Some (Inr w2)
    \<and> schedule_obj w2 = AList.update ''A'' [rA] (schedule_obj w1)
    \<and> oracle_calls w2 = oracle_calls w1 @ AList.update ''A'' [32] (schedule_obj w1) # csA
    \<and> schedule_run ?a ?iface [ev_A, ev_B] = Some (Inr w2)"
    by (intro exI [of _ "ws ! 0"] exI [of _ "ws ! 1"] exI [of _ "ws ! 2"]
        exI [of _ rB] exI [of _ csB] exI [of _ rA] exI [of _ csA]) simp
  with pos h sorted_evs_AB show ?thesis by blast
qed

subsection \<open>Runs on lists that agree on the attributes read\<close>

text \<open>Two states that agree on the dict and on the trace.\<close>

lemma while_loop_agree_aux:
  assumes "while_loop inc iface sid w1 = Some res1"
  shows "schedule_obj w2 = schedule_obj w1 \<Longrightarrow> oracle_calls w2 = oracle_calls w1 \<Longrightarrow>
    \<exists>res2. while_loop inc iface sid w2 = Some res2 \<and>
      map_sum id schedule_obj res2 = map_sum id schedule_obj res1 \<and>
      map_sum id oracle_calls res2 = map_sum id oracle_calls res1"
  using assms
proof (induction arbitrary: w2 rule: while_loop.raw_induct [rotated 1, consumes 1])
  case (1 loop inc iface sid w1 res1)
  note eq = \<open>schedule_obj w2 = schedule_obj w1\<close> \<open>oracle_calls w2 = oracle_calls w1\<close>
  show ?case
  proof (cases "is_feasible iface (schedule_obj w1) 0")
    case True
    with 1(2) eq show ?thesis
      by (subst while_loop.simps) (auto simp: call_is_feasible_def)
  next
    case False
    show ?thesis
    proof (cases "isub0 (schedule_obj w1) sid inc")
      case (Inl e)
      with False 1(2) eq show ?thesis
        by (subst while_loop.simps) (auto simp: call_is_feasible_def)
    next
      case (Inr sch2)
      show ?thesis
      proof (cases "getitem0 sch2 sid")
        case (Inl e)
        with False Inr 1(2) eq show ?thesis
          by (subst while_loop.simps) (auto simp: call_is_feasible_def)
      next
        case r: (Inr r)
        show ?thesis
        proof (cases "r < 0")
          case True
          with False Inr r 1(2) eq show ?thesis
            by (subst while_loop.simps) (auto simp: call_is_feasible_def)
        next
          case nonneg: False
          let ?v1 = "w1\<lparr>oracle_calls := oracle_calls w1 @ [schedule_obj w1], schedule_obj := sch2\<rparr>"
          let ?v2 = "w2\<lparr>oracle_calls := oracle_calls w2 @ [schedule_obj w2], schedule_obj := sch2\<rparr>"
          from False Inr r nonneg 1(2) have "loop inc iface sid ?v1 = Some res1"
            by (simp add: call_is_feasible_def)
          from this have "\<exists>res2. while_loop inc iface sid ?v2 = Some res2 \<and>
              map_sum id schedule_obj res2 = map_sum id schedule_obj res1 \<and>
              map_sum id oracle_calls res2 = map_sum id oracle_calls res1"
            by (rule 1(1)) (simp_all add: eq)
          then obtain res2 where "while_loop inc iface sid ?v2 = Some res2"
            "map_sum id schedule_obj res2 = map_sum id schedule_obj res1"
            "map_sum id oracle_calls res2 = map_sum id oracle_calls res1"
            by blast
          moreover have "while_loop inc iface sid w2 = while_loop inc iface sid ?v2"
            using False Inr r nonneg eq
            by (subst while_loop.simps) (simp add: call_is_feasible_def)
          ultimately show ?thesis by (simp only:) blast
        qed
      qed
    qed
  qed
qed


lemma while_loop_agree:
  assumes "schedule_obj w2 = schedule_obj w1" and "oracle_calls w2 = oracle_calls w1"
  shows "rel_option (rel_sum (=)
      (\<lambda>v1 v2. schedule_obj v2 = schedule_obj v1 \<and> oracle_calls v2 = oracle_calls v1))
    (while_loop inc iface sid w1) (while_loop inc iface sid w2)"
proof (cases "while_loop inc iface sid w1")
  case None
  have "while_loop inc iface sid w2 = None"
  proof (cases "while_loop inc iface sid w2")
    case (Some res2)
    from while_loop_agree_aux [OF Some, of w1] assms None show ?thesis by simp
  qed simp
  with None show ?thesis by simp
next
  case (Some res1)
  from while_loop_agree_aux [OF Some, of w2] assms
  obtain res2 where r: "while_loop inc iface sid w2 = Some res2"
    "map_sum id schedule_obj res2 = map_sum id schedule_obj res1"
    "map_sum id oracle_calls res2 = map_sum id oracle_calls res1" by blast
  from r(2,3) have "rel_sum (=)
      (\<lambda>v1 v2. schedule_obj v2 = schedule_obj v1 \<and> oracle_calls v2 = oracle_calls v1) res1 res2"
    by (cases res1; cases res2) simp_all
  with Some r(1) show ?thesis by simp
qed

lemma for_loop_agree:
  assumes "map station_id es1 = map station_id es2"
    and "schedule_obj w2 = schedule_obj w1" and "oracle_calls w2 = oracle_calls w1"
  shows "rel_option (rel_sum (=)
      (\<lambda>v1 v2. schedule_obj v2 = schedule_obj v1 \<and> oracle_calls v2 = oracle_calls v1))
    (for_loop a iface es1 w1) (for_loop a iface es2 w2)"
  using assms
proof (induction es1 arbitrary: es2 w1 w2)
  case Nil
  then show ?case by simp
next
  case (Cons e1 es1)
  from Cons.prems(1) obtain e2 es2' where es2: "es2 = e2 # es2'"
    and sid: "station_id e2 = station_id e1" and rest: "map station_id es1 = map station_id es2'"
    by (cases es2) auto
  let ?R = "\<lambda>v1 v2. schedule_obj v2 = schedule_obj v1 \<and> oracle_calls v2 = oracle_calls v1"
  have body: "rel_option (rel_sum (=) ?R) (loop_body a iface e1 w1) (loop_body a iface e2 w2)"
    unfolding loop_body_def sid
    by (rule while_loop_agree) (simp_all add: Cons.prems)
  show ?case
  proof (cases "loop_body a iface e1 w1")
    case None
    with body have "loop_body a iface e2 w2 = None" by (cases "loop_body a iface e2 w2") simp_all
    with None es2 show ?thesis by simp
  next
    case (Some r1)
    with body obtain r2 where r2: "loop_body a iface e2 w2 = Some r2" "rel_sum (=) ?R r1 r2"
      by (cases "loop_body a iface e2 w2") simp_all
    show ?thesis
    proof (cases r1)
      case (Inl err)
      with r2(2) have "r2 = Inl err" by (cases r2) simp_all
      with Some Inl r2(1) es2 show ?thesis by simp
    next
      case (Inr v1)
      with r2(2) obtain v2 where v2: "r2 = Inr v2" "?R v1 v2" by (cases r2) simp_all
      from Cons.IH [OF rest, of v2 v1] v2(2)
      have "rel_option (rel_sum (=) ?R) (for_loop a iface es1 v1) (for_loop a iface es2' v2)"
        by simp
      with Some Inr r2(1) v2(1) es2 show ?thesis by simp
    qed
  qed
qed

lemma insort_key_map:
  "map f (insort_key (\<lambda>x. g (f x)) x xs) = insort_key g (f x) (map f xs)"
  by (induction xs) simp_all

lemma sort_key_map: "map f (sort_key (\<lambda>x. g (f x)) xs) = sort_key g (map f xs)"
  by (induction xs) (simp_all add: insort_key_map)

lemma sorted_evs_stations:
  "map station_id (sorted_evs evs) =
     map snd (sort_key fst (map (\<lambda>e. (estimated_departure e, station_id e)) evs))"
proof -
  have "map station_id (sorted_evs evs) =
      map snd (map (\<lambda>e. (estimated_departure e, station_id e))
        (sort_key (\<lambda>e. fst (estimated_departure e, station_id e)) evs))"
    by (simp add: sorted_evs_def comp_def)
  also have "\<dots> = map snd (sort_key fst (map (\<lambda>e. (estimated_departure e, station_id e)) evs))"
    by (rule arg_cong [where f = "map snd"])
      (rule sort_key_map [where g = fst and f = "\<lambda>e. (estimated_departure e, station_id e)"])
  finally show ?thesis .
qed

lemma zero_schedule_stations:
  "zero_schedule evs = fold (\<lambda>sid sch. AList.update sid [0] sch) (map station_id evs) []"
  by (simp add: zero_schedule_def fold_map comp_def)

lemma map_pair_eq:
  "map f xs = map f' ys \<Longrightarrow> map g xs = map g' ys \<Longrightarrow>
   map (\<lambda>x. (g x, f x)) xs = map (\<lambda>y. (g' y, f' y)) ys"
  by (induction xs arbitrary: ys) auto

subsection \<open>Determinism\<close>

text \<open>
  C7. \<^verbatim>\<open>schedule\<close> is a function of the station ids and estimated departures of the EVs,
  in list order, and of the two interface functions: two lists of EVs that agree
  element-wise on these two attributes (whatever else the EV objects carry) give the same
  result against the same interface, be it a schedule, an exception or no return.
\<close>

theorem schedule_deterministic:
  fixes evs1 :: "'a ev_scheme list" and evs2 :: "'b ev_scheme list"
  assumes "map station_id evs1 = map station_id evs2"
    and "map estimated_departure evs1 = map estimated_departure evs2"
  shows "schedule a iface evs1 = schedule a iface evs2"
proof -
  let ?R = "\<lambda>(v1 :: 'a world) (v2 :: 'b world).
      schedule_obj v2 = schedule_obj v1 \<and> oracle_calls v2 = oracle_calls v1"
  have "map (\<lambda>e. (estimated_departure e, station_id e)) evs1 =
      map (\<lambda>e. (estimated_departure e, station_id e)) evs2"
    using assms by (rule map_pair_eq)
  then have order: "map station_id (sorted_evs evs1) = map station_id (sorted_evs evs2)"
    by (simp only: sorted_evs_stations)
  have zero: "zero_schedule evs2 = zero_schedule evs1"
    by (simp only: zero_schedule_stations assms(1))
  have "rel_option (rel_sum (=) ?R)
      (for_loop a iface (sorted_evs evs1) (initial_world evs1))
      (for_loop a iface (sorted_evs evs2) (initial_world evs2))"
    using order by (rule for_loop_agree) (simp_all add: initial_world_def zero)
  then have rel: "rel_option (rel_sum (=) ?R) (schedule_run a iface evs1) (schedule_run a iface evs2)"
    by (simp add: schedule_run_def initial_world_def)
  show ?thesis
  proof (cases "schedule_run a iface evs1")
    case None
    with rel have "schedule_run a iface evs2 = None"
      by (cases "schedule_run a iface evs2") simp_all
    with None show ?thesis by (simp add: schedule_def)
  next
    case (Some r1)
    with rel obtain r2 where r2: "schedule_run a iface evs2 = Some r2" "rel_sum (=) ?R r1 r2"
      by (cases "schedule_run a iface evs2") simp_all
    from r2(2) have "map_sum id schedule_obj r1 = map_sum id schedule_obj r2"
      by (cases r1; cases r2) simp_all
    with Some r2(1) show ?thesis by (simp add: schedule_def)
  qed
qed

theorem schedule_deterministic_witness:
  "map station_id [session_A, session_B] = map station_id [ev_A, ev_B] \<and>
   map estimated_departure [session_A, session_B] = map estimated_departure [ev_A, ev_B] \<and>
   schedule (EarliestDeadlineFirstAlgo 8) (limit_iface mps_AB 40) [session_A, session_B] =
     schedule (EarliestDeadlineFirstAlgo 8) (limit_iface mps_AB 40) [ev_A, ev_B]"
proof -
  have s: "map station_id [session_A, session_B] = map station_id [ev_A, ev_B]"
    by (simp add: session_A_def session_B_def ev_A_def ev_B_def)
  have d: "map estimated_departure [session_A, session_B] = map estimated_departure [ev_A, ev_B]"
    by (simp add: session_A_def session_B_def ev_A_def ev_B_def)
  from schedule_deterministic [OF s d] s d show ?thesis by blast
qed

subsection \<open>Bounds of the committed rates\<close>

text \<open>
  What one pass of the loop body commits, for a positive increment: 0, or a rate
  \<open>M - n * inc\<close> that the oracle accepted and that is not negative unless it is
  \<open>M\<close> itself.
\<close>

lemma loop_body_commits:
  assumes "0 < increment a"
  shows "\<exists>w' rf. loop_body a iface e w = Some (Inr w')
      \<and> schedule_obj w' = AList.update (station_id e) [rf] (schedule_obj w)
      \<and> (rf = 0 \<or> (\<exists>n. rf = max_pilot_signal iface (station_id e) - int n * increment a
            \<and> accepts iface (schedule_obj w) (station_id e) rf \<and> (0 < n \<longrightarrow> 0 \<le> rf)))"
proof -
  from loop_body_total [OF assms, of iface e w] obtain n rf where
    run: "loop_body a iface e w =
        Some (Inr (w\<lparr>oracle_calls := oracle_calls w @
                        map (\<lambda>i. AList.update (station_id e)
                                   [max_pilot_signal iface (station_id e) - int i * increment a]
                                   (schedule_obj w)) [0..<Suc n],
                      schedule_obj := AList.update (station_id e) [rf] (schedule_obj w)\<rparr>))"
    and pos: "0 < n \<longrightarrow> 0 \<le> max_pilot_signal iface (station_id e) - int n * increment a"
    and fin: "if accepts iface (schedule_obj w) (station_id e)
               (max_pilot_signal iface (station_id e) - int n * increment a)
          then rf = max_pilot_signal iface (station_id e) - int n * increment a
          else rf = 0 \<and> max_pilot_signal iface (station_id e) - int (Suc n) * increment a < 0"
    by blast
  have "rf = 0 \<or> (\<exists>n. rf = max_pilot_signal iface (station_id e) - int n * increment a
            \<and> accepts iface (schedule_obj w) (station_id e) rf \<and> (0 < n \<longrightarrow> 0 \<le> rf))"
  proof (cases "accepts iface (schedule_obj w) (station_id e)
               (max_pilot_signal iface (station_id e) - int n * increment a)")
    case True
    with fin pos show ?thesis by auto
  next
    case False
    with fin show ?thesis by simp
  qed
  moreover note run
  moreover have "schedule_obj (w\<lparr>oracle_calls := oracle_calls w @
                        map (\<lambda>i. AList.update (station_id e)
                                   [max_pilot_signal iface (station_id e) - int i * increment a]
                                   (schedule_obj w)) [0..<Suc n],
                      schedule_obj := AList.update (station_id e) [rf] (schedule_obj w)\<rparr>)
      = AList.update (station_id e) [rf] (schedule_obj w)"
    by simp
  ultimately show ?thesis by blast
qed

lemma for_loop_total_invariant:
  assumes inc: "0 < increment a"
    and init: "I (schedule_obj w)"
    and step: "\<And>sch e rf. e \<in> set es \<Longrightarrow> I sch \<Longrightarrow>
        rf = 0 \<or> (\<exists>n. rf = max_pilot_signal iface (station_id e) - int n * increment a
            \<and> accepts iface sch (station_id e) rf \<and> (0 < n \<longrightarrow> 0 \<le> rf)) \<Longrightarrow>
        I (AList.update (station_id e) [rf] sch)"
  shows "\<exists>w'. for_loop a iface es w = Some (Inr w') \<and> I (schedule_obj w')"
  using init step
proof (induction es arbitrary: w)
  case Nil
  then show ?case by simp
next
  case (Cons e es)
  from loop_body_commits [OF inc, of iface e w] obtain w1 rf where
    run: "loop_body a iface e w = Some (Inr w1)"
    and sch: "schedule_obj w1 = AList.update (station_id e) [rf] (schedule_obj w)"
    and rf: "rf = 0 \<or> (\<exists>n. rf = max_pilot_signal iface (station_id e) - int n * increment a
            \<and> accepts iface (schedule_obj w) (station_id e) rf \<and> (0 < n \<longrightarrow> 0 \<le> rf))"
    by blast
  have I1: "I (schedule_obj w1)"
    unfolding sch by (rule Cons.prems(2) [OF _ Cons.prems(1) rf]) simp
  have "\<exists>w'. for_loop a iface es w1 = Some (Inr w') \<and> I (schedule_obj w')"
    by (rule Cons.IH [OF I1]) (rule Cons.prems(2), simp_all)
  with run show ?case by simp
qed





subsection \<open>One processed EV\<close>

lemma evaluations_append [simp]:
  "evaluations w (w\<lparr>oracle_calls := oracle_calls w @ cs, schedule_obj := s\<rparr>) = cs"
  by (simp add: evaluations_def)

text \<open>One processed EV, for a positive increment: the states around it and the search.\<close>

lemma step_total:
  assumes "0 < increment a" and "i < length evs"
  shows "\<exists>w w' n rf.
      state_before a iface evs i = Some (Inr w)
    \<and> state_before a iface evs (Suc i) = Some (Inr w')
    \<and> loop_body a iface (sorted_evs evs ! i) w = Some (Inr w')
    \<and> schedule_obj w' = AList.update (station_id (sorted_evs evs ! i)) [rf] (schedule_obj w)
    \<and> evaluations w w' =
        map (\<lambda>k. AList.update (station_id (sorted_evs evs ! i))
               [max_pilot_signal iface (station_id (sorted_evs evs ! i)) - int k * increment a]
               (schedule_obj w)) [0..<Suc n]
    \<and> (\<forall>k<n. \<not> accepts iface (schedule_obj w) (station_id (sorted_evs evs ! i))
                  (max_pilot_signal iface (station_id (sorted_evs evs ! i)) - int k * increment a))
    \<and> (0 < n \<longrightarrow> 0 \<le> max_pilot_signal iface (station_id (sorted_evs evs ! i)) - int n * increment a)
    \<and> (if accepts iface (schedule_obj w) (station_id (sorted_evs evs ! i))
             (max_pilot_signal iface (station_id (sorted_evs evs ! i)) - int n * increment a)
        then rf = max_pilot_signal iface (station_id (sorted_evs evs ! i)) - int n * increment a
        else rf = 0 \<and>
          max_pilot_signal iface (station_id (sorted_evs evs ! i)) - int (Suc n) * increment a < 0)"
proof -
  let ?e = "sorted_evs evs ! i"
  from for_loop_returns [OF assms(1)] obtain w where w: "state_before a iface evs i = Some (Inr w)"
    unfolding state_before_def by blast
  from loop_body_total [OF assms(1), of iface ?e w] obtain n rf where
    run: "loop_body a iface ?e w =
        Some (Inr (w\<lparr>oracle_calls := oracle_calls w @
                        map (\<lambda>k. AList.update (station_id ?e)
                                   [max_pilot_signal iface (station_id ?e) - int k * increment a]
                                   (schedule_obj w)) [0..<Suc n],
                      schedule_obj := AList.update (station_id ?e) [rf] (schedule_obj w)\<rparr>))"
      (is "_ = Some (Inr ?w')")
    and rej: "\<forall>k<n. \<not> accepts iface (schedule_obj w) (station_id ?e)
                    (max_pilot_signal iface (station_id ?e) - int k * increment a)"
    and pos: "0 < n \<longrightarrow> 0 \<le> max_pilot_signal iface (station_id ?e) - int n * increment a"
    and fin: "if accepts iface (schedule_obj w) (station_id ?e)
               (max_pilot_signal iface (station_id ?e) - int n * increment a)
          then rf = max_pilot_signal iface (station_id ?e) - int n * increment a
          else rf = 0 \<and> max_pilot_signal iface (station_id ?e) - int (Suc n) * increment a < 0"
    by blast
  have next_state: "state_before a iface evs (Suc i) = Some (Inr ?w')"
    using w run state_before_Suc [OF assms(2), of a iface] by simp
  have sch: "schedule_obj ?w' = AList.update (station_id ?e) [rf] (schedule_obj w)"
    by simp
  have ev: "evaluations w ?w' = map (\<lambda>k. AList.update (station_id ?e)
               [max_pilot_signal iface (station_id ?e) - int k * increment a]
               (schedule_obj w)) [0..<Suc n]"
    by (rule evaluations_append)
  from w next_state run sch ev rej pos fin show ?thesis by blast
qed

subsection \<open>A station with maximum rate 0\<close>

text \<open>
  C8. When the station of an EV has maximum pilot signal 0 and the increment is positive,
  processing that EV calls the oracle exactly once, on the schedule with rate 0 for the
  station, and leaves rate 0 committed; the schedule that \<^verbatim>\<open>schedule\<close> returns has
  \<^verbatim>\<open>[0]\<close> for the station.
\<close>

theorem zero_max_rate_one_check:
  assumes "0 < increment a" and "i < length evs"
    and "max_pilot_signal iface (station_id (sorted_evs evs ! i)) = 0"
  shows "\<exists>w w'. state_before a iface evs i = Some (Inr w)
    \<and> state_before a iface evs (Suc i) = Some (Inr w')
    \<and> map_of (schedule_obj w') (station_id (sorted_evs evs ! i)) = Some [0]
    \<and> evaluations w w' = [AList.update (station_id (sorted_evs evs ! i)) [0] (schedule_obj w)]
    \<and> (\<exists>sch. schedule a iface evs = Some (Inr sch)
          \<and> map_of sch (station_id (sorted_evs evs ! i)) = Some [0])"
proof -
  let ?sid = "station_id (sorted_evs evs ! i)"
  note M = assms(3)
  from step_total [OF assms(1,2), of iface] obtain w w' n rf where
    w: "state_before a iface evs i = Some (Inr w)"
    and w': "state_before a iface evs (Suc i) = Some (Inr w')"
    and sch: "schedule_obj w' = AList.update ?sid [rf] (schedule_obj w)"
    and ev: "evaluations w w' =
        map (\<lambda>k. AList.update ?sid [max_pilot_signal iface ?sid - int k * increment a]
               (schedule_obj w)) [0..<Suc n]"
    and pos: "0 < n \<longrightarrow> 0 \<le> max_pilot_signal iface ?sid - int n * increment a"
    and fin: "if accepts iface (schedule_obj w) ?sid (max_pilot_signal iface ?sid - int n * increment a)
        then rf = max_pilot_signal iface ?sid - int n * increment a
        else rf = 0 \<and> max_pilot_signal iface ?sid - int (Suc n) * increment a < 0"
    by blast
  have n: "n = 0"
  proof (rule ccontr)
    assume "n \<noteq> 0"
    then have "0 < int n * increment a" using assms(1) by simp
    with pos \<open>n \<noteq> 0\<close> M show False by simp
  qed
  have rf: "rf = 0" using fin n M by (simp split: if_splits)
  have committed: "map_of (schedule_obj w') ?sid = Some [0]"
    by (simp add: sch rf update_conv')
  have once: "evaluations w w' = [AList.update ?sid [0] (schedule_obj w)]"
    by (simp add: ev n M)
  have "\<exists>wf. for_loop a iface (sorted_evs evs) (initial_world evs) = Some (Inr wf)
      \<and> map_of (schedule_obj wf) ?sid = Some [0]"
  proof (rule for_loop_total_invariant [OF assms(1)])
    have "i < length (sorted_evs evs)"
      using assms(2) by (simp add: sorted_evs_def)
    then have "sorted_evs evs ! i \<in> set (sorted_evs evs)"
      by (rule nth_mem)
    then have "sorted_evs evs ! i \<in> set evs" by (simp add: sorted_evs_def)
    then have "?sid \<in> station_id ` set evs" by (rule imageI)
    then show "map_of (schedule_obj (initial_world evs)) ?sid = Some [0]"
      by (simp add: initial_world_def map_of_zero_schedule)
  next
    fix sch e rf
    assume I: "map_of sch ?sid = Some [0]"
      and rf: "rf = 0 \<or> (\<exists>n. rf = max_pilot_signal iface (station_id e) - int n * increment a
            \<and> accepts iface sch (station_id e) rf \<and> (0 < n \<longrightarrow> 0 \<le> rf))"
    show "map_of (AList.update (station_id e) [rf] sch) ?sid = Some [0]"
    proof (cases "station_id e = ?sid")
      case False
      with I show ?thesis by (simp add: update_conv')
    next
      case True
      from rf have "rf = 0"
      proof
        assume "\<exists>n. rf = max_pilot_signal iface (station_id e) - int n * increment a
            \<and> accepts iface sch (station_id e) rf \<and> (0 < n \<longrightarrow> 0 \<le> rf)"
        then obtain m where "rf = max_pilot_signal iface (station_id e) - int m * increment a"
          and m2: "0 < m \<longrightarrow> 0 \<le> rf" by blast
        then have m1: "rf = - (int m * increment a)" by (simp add: True M)
        note m = m1 m2
        show "rf = 0"
        proof (cases m)
          case 0 with m show ?thesis by simp
        next
          case (Suc k)
          then have "0 < int m * increment a" using assms(1) by simp
          with m Suc show ?thesis by simp
        qed
      qed
      with True show ?thesis by (simp add: update_conv')
    qed
  qed
  then have "\<exists>sch. schedule a iface evs = Some (Inr sch) \<and> map_of sch ?sid = Some [0]"
    by (auto simp: schedule_def schedule_run_def initial_world_def)
  with w w' committed once show ?thesis by blast
qed

theorem zero_max_rate_one_check_witness:
  "0 < increment (EarliestDeadlineFirstAlgo 1) \<and> 0 < length [ev_B, ev_A] \<and>
   max_pilot_signal (limit_iface (flat_mps 0) 40) (station_id (sorted_evs [ev_B, ev_A] ! 0)) = 0 \<and>
   (\<exists>w w'. state_before (EarliestDeadlineFirstAlgo 1) (limit_iface (flat_mps 0) 40) [ev_B, ev_A] 0
        = Some (Inr w)
    \<and> state_before (EarliestDeadlineFirstAlgo 1) (limit_iface (flat_mps 0) 40) [ev_B, ev_A] (Suc 0)
        = Some (Inr w')
    \<and> map_of (schedule_obj w') (station_id (sorted_evs [ev_B, ev_A] ! 0)) = Some [0]
    \<and> evaluations w w' =
        [AList.update (station_id (sorted_evs [ev_B, ev_A] ! 0)) [0] (schedule_obj w)]
    \<and> (\<exists>sch. schedule (EarliestDeadlineFirstAlgo 1) (limit_iface (flat_mps 0) 40) [ev_B, ev_A]
            = Some (Inr sch)
          \<and> map_of sch (station_id (sorted_evs [ev_B, ev_A] ! 0)) = Some [0]))"
proof -
  have pos: "0 < increment (EarliestDeadlineFirstAlgo 1)"
    by (simp add: EarliestDeadlineFirstAlgo_def)
  have len: "0 < length [ev_B, ev_A]" by simp
  have M: "max_pilot_signal (limit_iface (flat_mps 0) 40)
      (station_id (sorted_evs [ev_B, ev_A] ! 0)) = 0"
    by (simp add: limit_iface_def flat_mps_def)
  from zero_max_rate_one_check [OF pos len M] pos len M show ?thesis by blast
qed

subsection \<open>Candidates of the search and the example oracle\<close>

lemma candidate_iff:
  assumes "0 < inc"
  shows "candidate M inc r \<longleftrightarrow> 0 \<le> r \<and> (\<exists>k::nat. r = M - int k * inc)"
proof
  assume c: "candidate M inc r"
  then obtain q where q: "M - r = inc * q" unfolding candidate_def by (auto elim: dvdE)
  from c have "0 \<le> M - r" unfolding candidate_def by simp
  with q assms have "0 \<le> q" by (simp add: zero_le_mult_iff)
  then have "r = M - int (nat q) * inc" using q by (simp add: mult.commute)
  with c show "0 \<le> r \<and> (\<exists>k::nat. r = M - int k * inc)"
    unfolding candidate_def by blast
next
  assume "0 \<le> r \<and> (\<exists>k::nat. r = M - int k * inc)"
  then obtain k :: nat where k: "0 \<le> r" "r = M - int k * inc" by blast
  have "0 \<le> int k * inc" using assms by simp
  with k show "candidate M inc r" unfolding candidate_def by simp
qed

lemma grid_mono:
  assumes "0 < inc" and "k \<le> k'"
  shows "M - int k' * inc \<le> M - int k * inc"
proof -
  have "int k * inc \<le> int k' * inc"
    using assms by (intro mult_right_mono) simp_all
  then show ?thesis by simp
qed

lemma grid_less:
  assumes "0 < inc" and "M - int k * inc < M - int k' * inc"
  shows "k' < k"
proof (rule ccontr)
  assume "\<not> k' < k"
  then have "k \<le> k'" by simp
  from grid_mono [OF assms(1) this, of M] assms(2) show False by simp
qed

lemma total_rate_update_mono:
  "r' \<le> r \<Longrightarrow> total_rate (AList.update sid [r'] sch) \<le> total_rate (AList.update sid [r] sch)"
  by (induction sch) (simp_all add: total_rate_def)

lemma monotone_limit_iface: "monotone_oracle (limit_iface mps cap)"
  unfolding monotone_oracle_def accepts_def
proof (intro allI impI)
  fix sch sid and r r' :: int
  assume "is_feasible (limit_iface mps cap) (AList.update sid [r] sch) 0" and "r' \<le> r"
  then have "total_rate (AList.update sid [r] sch) \<le> cap"
    and "total_rate (AList.update sid [r'] sch) \<le> total_rate (AList.update sid [r] sch)"
    by (simp_all add: limit_iface_def limit_feasible_def total_rate_update_mono)
  then show "is_feasible (limit_iface mps cap) (AList.update sid [r'] sch) 0"
    by (simp add: limit_iface_def limit_feasible_def)
qed

subsection \<open>The rate search\<close>

lemma run_grid_miss:
  "state_before (EarliestDeadlineFirstAlgo 2) (limit_iface (flat_mps 3) 0) [ev_A] 0 =
     Some (Inr \<lparr>active_evs_obj = [ev_A], schedule_obj = [(''A'', [0])], oracle_calls = []\<rparr>)"
  "state_before (EarliestDeadlineFirstAlgo 2) (limit_iface (flat_mps 3) 0) [ev_A] (Suc 0) =
     Some (Inr \<lparr>active_evs_obj = [ev_A], schedule_obj = [(''A'', [0])],
                oracle_calls = [[(''A'', [3])], [(''A'', [1])]]\<rparr>)"
  by code_simp+

text \<open>
  C1, as stated, fails. With increment 2, maximum pilot signal 3 and an oracle that
  accepts a schedule when its rates sum to at most 0 (a monotone oracle that accepts the
  all-zero schedule), the rates 3 and 1 are tested and rejected, and the rate committed is
  the clamped 0: not a value of the form \<open>3 - 2 * k\<close>, and not one the oracle was asked
  about.
\<close>

theorem committed_rate_not_greatest_candidate:
  "0 < increment (EarliestDeadlineFirstAlgo 2) \<and>
   monotone_oracle (limit_iface (flat_mps 3) 0) \<and>
   state_before (EarliestDeadlineFirstAlgo 2) (limit_iface (flat_mps 3) 0) [ev_A] 0 =
     Some (Inr \<lparr>active_evs_obj = [ev_A], schedule_obj = [(''A'', [0])], oracle_calls = []\<rparr>) \<and>
   state_before (EarliestDeadlineFirstAlgo 2) (limit_iface (flat_mps 3) 0) [ev_A] (Suc 0) =
     Some (Inr \<lparr>active_evs_obj = [ev_A], schedule_obj = [(''A'', [0])],
                oracle_calls = [[(''A'', [3])], [(''A'', [1])]]\<rparr>) \<and>
   \<not> greatest_feasible (limit_iface (flat_mps 3) 0) [(''A'', [0])] ''A''
       (increment (EarliestDeadlineFirstAlgo 2)) 0"
proof -
  have "\<not> candidate 3 2 0" by (simp add: candidate_def)
  then have "\<not> greatest_feasible (limit_iface (flat_mps 3) 0) [(''A'', [0])] ''A''
       (increment (EarliestDeadlineFirstAlgo 2)) 0"
    by (simp add: greatest_feasible_def limit_iface_def flat_mps_def EarliestDeadlineFirstAlgo_def)
  then show ?thesis
    by (simp add: run_grid_miss monotone_limit_iface) (simp add: EarliestDeadlineFirstAlgo_def)
qed

text \<open>
  C1, amended. For a positive increment, processing an EV changes the schedule at the EV's
  station only, to one rate \<open>r\<close>. If the oracle accepts at least one candidate (a value of
  the form \<open>M - k * inc\<close> in \<open>[0, M]\<close>, \<open>M\<close> the station's maximum pilot signal) in
  the partial schedule, \<open>r\<close> is the greatest such candidate: the oracle accepts it and
  rejects every greater candidate. If the oracle accepts no candidate, \<open>r\<close> is 0, which the
  search has not verified, unless \<open>M\<close> is negative and accepted, and then \<open>r\<close> is \<open>M\<close>.
  No assumption on the oracle is needed.
\<close>

theorem committed_rate_search:
  assumes "0 < increment a" and "i < length evs"
  shows "\<exists>w w' r.
      state_before a iface evs i = Some (Inr w)
    \<and> state_before a iface evs (Suc i) = Some (Inr w')
    \<and> schedule_obj w' = AList.update (station_id (sorted_evs evs ! i)) [r] (schedule_obj w)
    \<and> (if \<exists>c. candidate (max_pilot_signal iface (station_id (sorted_evs evs ! i))) (increment a) c
              \<and> accepts iface (schedule_obj w) (station_id (sorted_evs evs ! i)) c
        then greatest_feasible iface (schedule_obj w) (station_id (sorted_evs evs ! i))
               (increment a) r
        else r = (if max_pilot_signal iface (station_id (sorted_evs evs ! i)) < 0
                     \<and> accepts iface (schedule_obj w) (station_id (sorted_evs evs ! i))
                          (max_pilot_signal iface (station_id (sorted_evs evs ! i)))
                  then max_pilot_signal iface (station_id (sorted_evs evs ! i)) else 0))"
proof -
  let ?sid = "station_id (sorted_evs evs ! i)"
  let ?M = "max_pilot_signal iface ?sid"
  let ?inc = "increment a"
  note inc = assms(1)
  from step_total [OF assms, of iface] obtain w w' n rf where
    w: "state_before a iface evs i = Some (Inr w)"
    and w': "state_before a iface evs (Suc i) = Some (Inr w')"
    and sch: "schedule_obj w' = AList.update ?sid [rf] (schedule_obj w)"
    and rej: "\<forall>k<n. \<not> accepts iface (schedule_obj w) ?sid (?M - int k * ?inc)"
    and pos: "0 < n \<longrightarrow> 0 \<le> ?M - int n * ?inc"
    and fin: "if accepts iface (schedule_obj w) ?sid (?M - int n * ?inc)
        then rf = ?M - int n * ?inc
        else rf = 0 \<and> ?M - int (Suc n) * ?inc < 0"
    by blast
  let ?acc = "accepts iface (schedule_obj w) ?sid"
  have le_M: "?M - int k * ?inc \<le> ?M" for k
    using grid_mono [OF inc, of 0 k ?M] by simp
  have "if \<exists>c. candidate ?M ?inc c \<and> ?acc c
        then greatest_feasible iface (schedule_obj w) ?sid ?inc rf
        else rf = (if ?M < 0 \<and> ?acc ?M then ?M else 0)"
  proof (cases "\<exists>c. candidate ?M ?inc c \<and> ?acc c")
    case True
    then obtain c where c: "candidate ?M ?inc c" "?acc c" by blast
    from c(1) obtain k :: nat where k: "0 \<le> c" "c = ?M - int k * ?inc"
      unfolding candidate_iff [OF inc] by blast
    have M0: "0 \<le> ?M" using k le_M [of k] by simp
    have last: "?acc (?M - int n * ?inc)"
    proof (rule ccontr)
      assume no: "\<not> ?acc (?M - int n * ?inc)"
      with fin have neg: "?M - int (Suc n) * ?inc < 0" by simp
      have "k \<le> n"
      proof (rule ccontr)
        assume "\<not> k \<le> n"
        then have "Suc n \<le> k" by simp
        from grid_mono [OF inc this, of ?M] neg k show False by simp
      qed
      then have "k < n \<or> k = n" by auto
      with rej no c(2) k(2) show False by auto
    qed
    with fin have rf: "rf = ?M - int n * ?inc" by simp
    have nonneg: "0 \<le> rf" using pos M0 rf by (cases n) simp_all
    have cand: "candidate ?M ?inc rf"
      unfolding candidate_iff [OF inc] using nonneg rf by blast
    have greater: "\<forall>r' \<in> {rf<..?M}. candidate ?M ?inc r' \<longrightarrow> \<not> ?acc r'"
    proof (intro ballI impI)
      fix r' assume r': "r' \<in> {rf<..?M}" and cr: "candidate ?M ?inc r'"
      from cr obtain k' :: nat where k': "r' = ?M - int k' * ?inc"
        unfolding candidate_iff [OF inc] by blast
      from r' have "?M - int n * ?inc < ?M - int k' * ?inc" by (simp add: rf k')
      with inc have "k' < n" by (rule grid_less)
      with rej k' show "\<not> ?acc r'" by simp
    qed
    from cand last greater have "greatest_feasible iface (schedule_obj w) ?sid ?inc rf"
      unfolding greatest_feasible_def rf by simp
    with True show ?thesis by simp
  next
    case False
    have "rf = (if ?M < 0 \<and> ?acc ?M then ?M else 0)"
    proof (cases "?acc (?M - int n * ?inc)")
      case True
      with fin have rf: "rf = ?M - int n * ?inc" by simp
      have "\<not> candidate ?M ?inc rf" using False True rf by auto
      then have neg: "rf < 0" unfolding candidate_iff [OF inc] using rf by auto
      with pos rf have "n = 0" by (cases n) simp_all
      with rf neg True show ?thesis by simp
    next
      case no: False
      with fin have rf: "rf = 0" by simp
      have "\<not> (?M < 0 \<and> ?acc ?M)"
      proof
        assume neg: "?M < 0 \<and> ?acc ?M"
        have "n = 0"
        proof (cases n)
          case (Suc m)
          with pos le_M [of n] neg show ?thesis by simp
        qed simp
        with no neg show False by simp
      qed
      with rf show ?thesis by simp
    qed
    then show ?thesis unfolding if_not_P [OF False] .
  qed
  with w w' sch show ?thesis by blast
qed


lemma steps_AB:
  "state_before (EarliestDeadlineFirstAlgo 8) (limit_iface mps_AB 40) [ev_A, ev_B] 1 =
     Some (Inr \<lparr>active_evs_obj = [ev_A, ev_B], schedule_obj = [(''A'', [0]), (''B'', [16])],
                oracle_calls = [[(''A'', [0]), (''B'', [16])]]\<rparr>)"
  "state_before (EarliestDeadlineFirstAlgo 8) (limit_iface mps_AB 40) [ev_A, ev_B] (Suc 1) =
     Some (Inr \<lparr>active_evs_obj = [ev_A, ev_B], schedule_obj = [(''A'', [24]), (''B'', [16])],
                oracle_calls = [[(''A'', [0]), (''B'', [16])], [(''A'', [32]), (''B'', [16])],
                                [(''A'', [24]), (''B'', [16])]]\<rparr>)"
  by code_simp+

theorem committed_rate_search_witness:
  "0 < increment (EarliestDeadlineFirstAlgo 8) \<and> 1 < length [ev_A, ev_B] \<and>
   station_id (sorted_evs [ev_A, ev_B] ! 1) = ''A'' \<and>
   greatest_feasible (limit_iface mps_AB 40) [(''A'', [0]), (''B'', [16])] ''A''
     (increment (EarliestDeadlineFirstAlgo 8)) 24"
proof -
  let ?a = "EarliestDeadlineFirstAlgo 8" and ?iface = "limit_iface mps_AB 40"
  have pos: "0 < increment ?a" by (simp add: EarliestDeadlineFirstAlgo_def)
  have len: "1 < length [ev_A, ev_B]" by simp
  have sid: "station_id (sorted_evs [ev_A, ev_B] ! 1) = ''A''"
    by (simp add: sorted_evs_AB) (simp add: ev_A_def)
  from committed_rate_search [OF pos len, of ?iface] obtain w w' r where
    w: "state_before ?a ?iface [ev_A, ev_B] 1 = Some (Inr w)"
    and w': "state_before ?a ?iface [ev_A, ev_B] (Suc 1) = Some (Inr w')"
    and sch: "schedule_obj w' = AList.update ''A'' [r] (schedule_obj w)"
    and r: "if \<exists>c. candidate (max_pilot_signal ?iface ''A'') (increment ?a) c
              \<and> accepts ?iface (schedule_obj w) ''A'' c
        then greatest_feasible ?iface (schedule_obj w) ''A'' (increment ?a) r
        else r = (if max_pilot_signal ?iface ''A'' < 0
                     \<and> accepts ?iface (schedule_obj w) ''A'' (max_pilot_signal ?iface ''A'')
                  then max_pilot_signal ?iface ''A'' else 0)"
    unfolding sid by blast
  from w [unfolded steps_AB(1)] have sw: "schedule_obj w = [(''A'', [0]), (''B'', [16])]"
    by auto
  from w' [unfolded steps_AB(2)] sch have "r = 24" by (auto simp: sw)
  moreover have "candidate (max_pilot_signal ?iface ''A'') (increment ?a) 24
      \<and> accepts ?iface (schedule_obj w) ''A'' 24"
    by (simp add: sw candidate_def accepts_def limit_iface_def limit_feasible_def total_rate_def
        mps_AB_def EarliestDeadlineFirstAlgo_def)
  then have "\<exists>c. candidate (max_pilot_signal ?iface ''A'') (increment ?a) c
      \<and> accepts ?iface (schedule_obj w) ''A'' c" by blast
  ultimately have "greatest_feasible ?iface [(''A'', [0]), (''B'', [16])] ''A'' (increment ?a) 24"
    using r sw by simp
  with pos len sid show ?thesis by blast
qed

subsection \<open>Verification of the committed rate\<close>

lemma run_clamped:
  "schedule_run (EarliestDeadlineFirstAlgo 3) (limit_iface (flat_mps 5) 1) [ev_A] =
     Some (Inr \<lparr>active_evs_obj = [ev_A], schedule_obj = [(''A'', [0])],
                oracle_calls = [[(''A'', [5])], [(''A'', [2])]]\<rparr>)"
  by code_simp

text \<open>
  C3, as stated, fails. With increment 3, maximum pilot signal 5 and the limit 1 on the
  sum of the rates, the oracle is called on the rates 5 and 2 and rejects both; the rate
  0 is then committed and returned, and no oracle call was made on the schedule that
  holds it.
\<close>

theorem clamped_rate_not_verified:
  "0 < increment (EarliestDeadlineFirstAlgo 3) \<and>
   schedule_run (EarliestDeadlineFirstAlgo 3) (limit_iface (flat_mps 5) 1) [ev_A] =
     Some (Inr \<lparr>active_evs_obj = [ev_A], schedule_obj = [(''A'', [0])],
                oracle_calls = [[(''A'', [5])], [(''A'', [2])]]\<rparr>) \<and>
   \<not> verified (limit_iface (flat_mps 5) 1)
       \<lparr>active_evs_obj = [ev_A], schedule_obj = [(''A'', [0])],
        oracle_calls = [[(''A'', [5])], [(''A'', [2])]]\<rparr>"
  by (simp add: run_clamped verified_def) (simp add: EarliestDeadlineFirstAlgo_def)

text \<open>
  C3, amended. For a positive increment, processing an EV makes at least one oracle call,
  and either the last of these calls is on the schedule that is left committed and the
  oracle accepts it, or the oracle has rejected every call made for this EV and rate 0
  is left committed for the station (the clamped case), without a call that verifies it.
\<close>

theorem committed_rate_verification:
  assumes "0 < increment a" and "i < length evs"
  shows "\<exists>w w'.
      state_before a iface evs i = Some (Inr w)
    \<and> state_before a iface evs (Suc i) = Some (Inr w')
    \<and> evaluations w w' \<noteq> []
    \<and> (last (evaluations w w') = schedule_obj w' \<and> verified iface w'
       \<or> schedule_obj w' = AList.update (station_id (sorted_evs evs ! i)) [0] (schedule_obj w)
         \<and> (\<forall>c \<in> set (evaluations w w'). \<not> is_feasible iface c 0))"
proof -
  let ?sid = "station_id (sorted_evs evs ! i)"
  let ?M = "max_pilot_signal iface ?sid"
  let ?inc = "increment a"
  from step_total [OF assms, of iface] obtain w w' n rf where
    w: "state_before a iface evs i = Some (Inr w)"
    and w': "state_before a iface evs (Suc i) = Some (Inr w')"
    and sch: "schedule_obj w' = AList.update ?sid [rf] (schedule_obj w)"
    and ev: "evaluations w w' =
        map (\<lambda>k. AList.update ?sid [?M - int k * ?inc] (schedule_obj w)) [0..<Suc n]"
    and rej: "\<forall>k<n. \<not> accepts iface (schedule_obj w) ?sid (?M - int k * ?inc)"
    and fin: "if accepts iface (schedule_obj w) ?sid (?M - int n * ?inc)
        then rf = ?M - int n * ?inc
        else rf = 0 \<and> ?M - int (Suc n) * ?inc < 0"
    by blast
  have nonempty: "evaluations w w' \<noteq> []" by (simp add: ev)
  have last: "last (evaluations w w') = AList.update ?sid [?M - int n * ?inc] (schedule_obj w)"
    by (simp add: ev)
  have sub: "set (evaluations w w') \<subseteq> set (oracle_calls w')"
    unfolding evaluations_def by (rule set_drop_subset)
  have "last (evaluations w w') = schedule_obj w' \<and> verified iface w'
       \<or> schedule_obj w' = AList.update ?sid [0] (schedule_obj w)
         \<and> (\<forall>c \<in> set (evaluations w w'). \<not> is_feasible iface c 0)"
  proof (cases "accepts iface (schedule_obj w) ?sid (?M - int n * ?inc)")
    case True
    with fin have rf: "rf = ?M - int n * ?inc" by simp
    have eq: "last (evaluations w w') = schedule_obj w'" by (simp add: last sch rf)
    have "last (evaluations w w') \<in> set (evaluations w w')"
      using nonempty by (rule last_in_set)
    with sub eq have "schedule_obj w' \<in> set (oracle_calls w')" by auto
    moreover from True have "is_feasible iface (schedule_obj w') 0"
      by (simp add: accepts_def sch rf)
    ultimately show ?thesis using eq by (simp add: verified_def)
  next
    case False
    with fin have rf: "rf = 0" by simp
    have "\<not> is_feasible iface c 0" if "c \<in> set (evaluations w w')" for c
    proof -
      from that have "c \<in> (\<lambda>k. AList.update ?sid [?M - int k * ?inc] (schedule_obj w))
          ` set [0..<Suc n]"
        unfolding ev set_map .
      then obtain k where k: "k < Suc n"
        "c = AList.update ?sid [?M - int k * ?inc] (schedule_obj w)"
        by (auto simp del: upt_Suc)
      from k(1) have "k < n \<or> k = n" by auto
      with rej False have "\<not> accepts iface (schedule_obj w) ?sid (?M - int k * ?inc)" by auto
      then show ?thesis by (simp add: accepts_def k(2))
    qed
    with sch rf show ?thesis by simp
  qed
  with w w' nonempty show ?thesis by blast
qed

theorem committed_rate_verification_witness:
  "0 < increment (EarliestDeadlineFirstAlgo 8) \<and> 1 < length [ev_A, ev_B] \<and>
   (\<exists>w w'.
      state_before (EarliestDeadlineFirstAlgo 8) (limit_iface mps_AB 40) [ev_A, ev_B] 1
        = Some (Inr w)
    \<and> state_before (EarliestDeadlineFirstAlgo 8) (limit_iface mps_AB 40) [ev_A, ev_B] (Suc 1)
        = Some (Inr w')
    \<and> evaluations w w' \<noteq> []
    \<and> (last (evaluations w w') = schedule_obj w' \<and> verified (limit_iface mps_AB 40) w'
       \<or> schedule_obj w' = AList.update (station_id (sorted_evs [ev_A, ev_B] ! 1)) [0]
            (schedule_obj w)
         \<and> (\<forall>c \<in> set (evaluations w w'). \<not> is_feasible (limit_iface mps_AB 40) c 0)))"
proof -
  have pos: "0 < increment (EarliestDeadlineFirstAlgo 8)"
    by (simp add: EarliestDeadlineFirstAlgo_def)
  have len: "1 < length [ev_A, ev_B]" by simp
  from committed_rate_verification [OF pos len] pos len show ?thesis by blast
qed

subsection \<open>Termination and the number of oracle calls\<close>

text \<open>With increment 0 a rejected rate that is not negative is tested again and again.\<close>

lemma while_loop_stuck_aux:
  assumes "while_loop inc iface sid w = Some res"
  shows "schedule_obj w = AList.update sid [r] sch \<Longrightarrow> inc = 0 \<Longrightarrow> 0 \<le> r \<Longrightarrow>
    \<not> accepts iface sch sid r \<Longrightarrow> False"
  using assms
proof (induction arbitrary: r rule: while_loop.raw_induct [rotated 1, consumes 1])
  case (1 loop inc iface sid w res)
  note so = \<open>schedule_obj w = AList.update sid [r] sch\<close>
  have m: "isub0 (AList.update sid [r] sch) sid inc = Inr (AList.update sid [r - inc] sch)"
    by (simp add: isub0_single update_conv')
  let ?w1 = "w\<lparr>oracle_calls := oracle_calls w @ [schedule_obj w],
                schedule_obj := AList.update sid [r - inc] sch\<rparr>"
  from 1(6) have "\<not> is_feasible iface (schedule_obj w) 0"
    by (simp add: so accepts_def)
  moreover have "\<not> r - inc < 0" using 1(4,5) by simp
  ultimately have "loop inc iface sid ?w1 = Some res"
    using 1(2) by (simp add: call_is_feasible_def m getitem0_update so)
  from 1(1) [OF this, of "r - inc"] 1(4,5,6) show False by simp
qed

lemma loop_body_diverges:
  assumes "increment b \<le> 0" and "increment b = 0 \<or> monotone_oracle iface"
    and "0 \<le> max_pilot_signal iface (station_id e)"
    and "\<not> accepts iface (schedule_obj v) (station_id e) (max_pilot_signal iface (station_id e))"
  shows "loop_body b iface e v = None"
proof (cases "loop_body b iface e v")
  case (Some res)
  let ?M = "max_pilot_signal iface (station_id e)"
  let ?v0 = "v\<lparr>schedule_obj := AList.update (station_id e) [?M] (schedule_obj v)\<rparr>"
  have run: "while_loop (increment b) iface (station_id e) ?v0 = Some res"
    using Some by (simp add: loop_body_def)
  have so: "schedule_obj ?v0 = AList.update (station_id e) [?M] (schedule_obj v)" by simp
  from assms(2) show ?thesis
  proof
    assume "increment b = 0"
    from while_loop_stuck_aux [OF run so this assms(3,4)] show ?thesis ..
  next
    assume mono: "monotone_oracle iface"
    have "\<forall>r'\<ge>?M. \<not> accepts iface (schedule_obj v) (station_id e) r'"
    proof (intro allI impI notI)
      fix r' assume "?M \<le> r'" and "accepts iface (schedule_obj v) (station_id e) r'"
      with mono assms(3) have "accepts iface (schedule_obj v) (station_id e) ?M"
        unfolding monotone_oracle_def by blast
      with assms(4) show False by simp
    qed
    from while_loop_diverges_aux [OF run so assms(1,3) this] show ?thesis ..
  qed
qed simp


text \<open>
  C10. For a positive increment the inner loop ends for every EV, and the number of
  oracle calls it makes for the EV is at least one and at most \<open>M div inc + 1\<close>,
  \<open>M\<close> being the maximum pilot signal of the station, a hardware ceiling and as such
  not negative (were it negative, the one call on \<open>M\<close> itself would still be made:
  the number is at most \<open>max 1 (M div inc + 1)\<close> in every case). The constructor
  stores whatever increment it is given. A positive increment is needed: when the
  increment is 0, or is negative and the oracle is monotone as the specification
  requires of it, an EV whose starting rate \<open>M\<close> is rejected makes the loop run
  forever, and \<^verbatim>\<open>schedule\<close> does not return.
\<close>

theorem search_loop_evaluations:
  "(0 < increment a \<longrightarrow> i < length evs \<longrightarrow>
      (\<exists>w w'. state_before a iface evs i = Some (Inr w)
         \<and> state_before a iface evs (Suc i) = Some (Inr w')
         \<and> 1 \<le> int (length (evaluations w w'))
         \<and> int (length (evaluations w w'))
             \<le> max 1 (max_pilot_signal iface (station_id (sorted_evs evs ! i)) div increment a + 1)
         \<and> (0 \<le> max_pilot_signal iface (station_id (sorted_evs evs ! i)) \<longrightarrow>
              int (length (evaluations w w'))
                \<le> max_pilot_signal iface (station_id (sorted_evs evs ! i)) div increment a + 1))) \<and>
   increment (EarliestDeadlineFirstAlgo inc0) = inc0 \<and>
   (increment b \<le> 0 \<longrightarrow> j < length evs \<longrightarrow> (increment b = 0 \<or> monotone_oracle iface) \<longrightarrow>
      state_before b iface evs j = Some (Inr v) \<longrightarrow>
      0 \<le> max_pilot_signal iface (station_id (sorted_evs evs ! j)) \<longrightarrow>
      \<not> accepts iface (schedule_obj v) (station_id (sorted_evs evs ! j))
          (max_pilot_signal iface (station_id (sorted_evs evs ! j))) \<longrightarrow>
      loop_body b iface (sorted_evs evs ! j) v = None \<and> schedule b iface evs = None)"
proof (intro conjI impI)
  assume inc: "0 < increment a" and i: "i < length evs"
  let ?sid = "station_id (sorted_evs evs ! i)"
  let ?M = "max_pilot_signal iface ?sid"
  let ?inc = "increment a"
  from step_total [OF inc i, of iface] obtain w w' n where
    w: "state_before a iface evs i = Some (Inr w)"
    and w': "state_before a iface evs (Suc i) = Some (Inr w')"
    and ev: "evaluations w w' =
        map (\<lambda>k. AList.update ?sid [?M - int k * ?inc] (schedule_obj w)) [0..<Suc n]"
    and pos: "0 < n \<longrightarrow> 0 \<le> ?M - int n * ?inc"
    by blast
  have len: "int (length (evaluations w w')) = int n + 1" by (simp add: ev)
  have n: "int n \<le> ?M div ?inc" if "0 < n"
  proof -
    from that pos have "int n * ?inc \<le> ?M" by simp
    with inc have "(int n * ?inc) div ?inc \<le> ?M div ?inc" by (intro zdiv_mono1) simp_all
    with inc show ?thesis by simp
  qed
  have b1: "int (length (evaluations w w')) \<le> max 1 (?M div ?inc + 1)"
    using n len by (cases n) simp_all
  have b2: "int (length (evaluations w w')) \<le> ?M div ?inc + 1" if "0 \<le> ?M"
  proof -
    from that inc have "0 \<le> ?M div ?inc" by (simp add: pos_imp_zdiv_nonneg_iff)
    with n len show ?thesis by (cases n) simp_all
  qed
  from w w' len b1 b2
  show "\<exists>w w'. state_before a iface evs i = Some (Inr w)
         \<and> state_before a iface evs (Suc i) = Some (Inr w')
         \<and> 1 \<le> int (length (evaluations w w'))
         \<and> int (length (evaluations w w')) \<le> max 1 (?M div ?inc + 1)
         \<and> (0 \<le> ?M \<longrightarrow> int (length (evaluations w w')) \<le> ?M div ?inc + 1)"
    by (intro exI [of _ w] exI [of _ w']) simp
next
  show "increment (EarliestDeadlineFirstAlgo inc0) = inc0"
    by (simp add: EarliestDeadlineFirstAlgo_def)
next
  assume b: "increment b \<le> 0" and j: "j < length evs"
    and mono: "increment b = 0 \<or> monotone_oracle iface"
    and v: "state_before b iface evs j = Some (Inr v)"
    and M: "0 \<le> max_pilot_signal iface (station_id (sorted_evs evs ! j))"
    and rej: "\<not> accepts iface (schedule_obj v) (station_id (sorted_evs evs ! j))
          (max_pilot_signal iface (station_id (sorted_evs evs ! j)))"
  from b mono M rej show body: "loop_body b iface (sorted_evs evs ! j) v = None"
    by (rule loop_body_diverges)
  have "j < length (sorted_evs evs)" using j by (simp add: sorted_evs_def)
  then have "drop j (sorted_evs evs) = sorted_evs evs ! j # drop (Suc j) (sorted_evs evs)"
    by (simp add: Cons_nth_drop_Suc)
  with body v have "schedule_run b iface evs = None"
    using schedule_run_from [of j evs b iface] j by simp
  then show "schedule b iface evs = None" by (simp add: schedule_def)
qed

lemma steps_small_limit:
  "state_before (EarliestDeadlineFirstAlgo 0) (limit_iface mps_AB 10) [ev_A, ev_B] 0 =
     Some (Inr \<lparr>active_evs_obj = [ev_A, ev_B], schedule_obj = [(''A'', [0]), (''B'', [0])],
                oracle_calls = []\<rparr>)"
  by code_simp

theorem search_loop_evaluations_witness:
  "0 < increment (EarliestDeadlineFirstAlgo 8) \<and> 1 < length [ev_A, ev_B] \<and>
   increment (EarliestDeadlineFirstAlgo 0) \<le> 0 \<and> 0 < length [ev_A, ev_B] \<and>
   monotone_oracle (limit_iface mps_AB 10) \<and>
   0 \<le> max_pilot_signal (limit_iface mps_AB 10) (station_id (sorted_evs [ev_A, ev_B] ! 0)) \<and>
   \<not> accepts (limit_iface mps_AB 10) [(''A'', [0]), (''B'', [0])]
       (station_id (sorted_evs [ev_A, ev_B] ! 0))
       (max_pilot_signal (limit_iface mps_AB 10) (station_id (sorted_evs [ev_A, ev_B] ! 0))) \<and>
   (\<exists>w w'. state_before (EarliestDeadlineFirstAlgo 8) (limit_iface mps_AB 10) [ev_A, ev_B] 1
              = Some (Inr w)
      \<and> state_before (EarliestDeadlineFirstAlgo 8) (limit_iface mps_AB 10) [ev_A, ev_B] (Suc 1)
              = Some (Inr w')
      \<and> int (length (evaluations w w')) \<le> 5) \<and>
   schedule (EarliestDeadlineFirstAlgo 0) (limit_iface mps_AB 10) [ev_A, ev_B] = None"
proof -
  let ?a = "EarliestDeadlineFirstAlgo 8" and ?b = "EarliestDeadlineFirstAlgo 0"
  let ?iface = "limit_iface mps_AB 10"
  let ?v = "\<lparr>active_evs_obj = [ev_A, ev_B], schedule_obj = [(''A'', [0]), (''B'', [0])],
                oracle_calls = []\<rparr>"
  have pos: "0 < increment ?a" by (simp add: EarliestDeadlineFirstAlgo_def)
  have nonpos: "increment ?b \<le> 0" by (simp add: EarliestDeadlineFirstAlgo_def)
  have len: "1 < length [ev_A, ev_B]" "0 < length [ev_A, ev_B]" by simp_all
  have sid0: "station_id (sorted_evs [ev_A, ev_B] ! 0) = ''B''"
    by (simp add: sorted_evs_AB) (simp add: ev_B_def)
  have sid1: "station_id (sorted_evs [ev_A, ev_B] ! 1) = ''A''"
    by (simp add: sorted_evs_AB) (simp add: ev_A_def)
  have M0: "0 \<le> max_pilot_signal ?iface (station_id (sorted_evs [ev_A, ev_B] ! 0))"
    by (simp add: limit_iface_def mps_AB_def)
  have rej: "\<not> accepts ?iface (schedule_obj ?v) (station_id (sorted_evs [ev_A, ev_B] ! 0))
       (max_pilot_signal ?iface (station_id (sorted_evs [ev_A, ev_B] ! 0)))"
    unfolding sid0
    by (simp add: accepts_def limit_iface_def limit_feasible_def total_rate_def mps_AB_def)
  have bound: "max 1 (max_pilot_signal ?iface (station_id (sorted_evs [ev_A, ev_B] ! 1))
      div increment ?a + 1) = 5"
    unfolding sid1 by (simp add: limit_iface_def mps_AB_def EarliestDeadlineFirstAlgo_def)
  note inst = search_loop_evaluations [of ?a 1 "[ev_A, ev_B]" ?iface 0 ?b 0 ?v]
  from inst pos len(1) have "\<exists>w w'. state_before ?a ?iface [ev_A, ev_B] 1 = Some (Inr w)
      \<and> state_before ?a ?iface [ev_A, ev_B] (Suc 1) = Some (Inr w')
      \<and> int (length (evaluations w w')) \<le> 5"
    unfolding bound by blast
  moreover from inst nonpos len(2) monotone_limit_iface [of mps_AB 10] steps_small_limit M0 rej
  have "schedule ?b ?iface [ev_A, ev_B] = None" by blast
  ultimately show ?thesis
    using pos nonpos len monotone_limit_iface [of mps_AB 10] M0 rej by simp
qed

subsection \<open>No error is signalled\<close>

lemma run_infeasible_baseline:
  "schedule (EarliestDeadlineFirstAlgo 1) (limit_iface (flat_mps 2) (- 1)) [ev_A] =
     Some (Inr [(''A'', [0])])"
  "zero_schedule [ev_A] = [(''A'', [0])]"
  by code_simp+

text \<open>
  C2, as stated, fails. Against an oracle that accepts a schedule when its rates sum to at
  most -1, and so rejects the all-zero schedule, \<^verbatim>\<open>schedule\<close> raises nothing: it returns
  the all-zero schedule, which the oracle rejects.
\<close>

theorem infeasible_baseline_returned:
  "\<not> is_feasible (limit_iface (flat_mps 2) (- 1)) (zero_schedule [ev_A]) 0 \<and>
   schedule (EarliestDeadlineFirstAlgo 1) (limit_iface (flat_mps 2) (- 1)) [ev_A] =
     Some (Inr [(''A'', [0])]) \<and>
   \<not> is_feasible (limit_iface (flat_mps 2) (- 1)) [(''A'', [0])] 0"
  by (simp add: run_infeasible_baseline)
    (simp add: limit_iface_def limit_feasible_def total_rate_def)

text \<open>
  C2, amended. \<^verbatim>\<open>schedule\<close> never raises, and for a positive increment it returns a
  schedule. If the oracle rejects the all-zero schedule, then, for a positive increment,
  a monotone oracle and maximum pilot signals that are not negative, what it returns is
  the all-zero schedule, the one the oracle rejects.
\<close>

theorem schedule_signals_no_error:
  "(\<forall>err. schedule a iface evs \<noteq> Some (Inl err)) \<and>
   (0 < increment a \<longrightarrow> (\<exists>sch. schedule a iface evs = Some (Inr sch))) \<and>
   (0 < increment a \<longrightarrow> monotone_oracle iface \<longrightarrow>
      (\<forall>e \<in> set evs. 0 \<le> max_pilot_signal iface (station_id e)) \<longrightarrow>
      \<not> is_feasible iface (zero_schedule evs) 0 \<longrightarrow>
      schedule a iface evs = Some (Inr (zero_schedule evs)))"
proof (intro conjI allI impI)
  fix err
  show "schedule a iface evs \<noteq> Some (Inl err)"
  proof
    assume "schedule a iface evs = Some (Inl err)"
    then obtain res where run: "schedule_run a iface evs = Some res"
      and res: "Inl err = map_sum id schedule_obj res"
      unfolding schedule_Some_iff by blast
    from run have "for_loop a iface (sorted_evs evs) (initial_world evs) = Some res"
      by (simp add: schedule_run_def initial_world_def)
    from for_loop_invariant [OF this, of "\<lambda>sch. True"] obtain w where "res = Inr w" by auto
    with res show False by simp
  qed
next
  assume "0 < increment a"
  from schedule_run_returns [OF this, of iface evs]
  show "\<exists>sch. schedule a iface evs = Some (Inr sch)"
    by (auto simp: schedule_def)
next
  assume inc: "0 < increment a" and mono: "monotone_oracle iface"
    and M: "\<forall>e \<in> set evs. 0 \<le> max_pilot_signal iface (station_id e)"
    and base: "\<not> is_feasible iface (zero_schedule evs) 0"
  have "\<exists>w'. for_loop a iface (sorted_evs evs) (initial_world evs) = Some (Inr w')
      \<and> schedule_obj w' = zero_schedule evs"
  proof (rule for_loop_total_invariant [OF inc])
    show "schedule_obj (initial_world evs) = zero_schedule evs"
      by (simp add: initial_world_def)
  next
    fix sch e rf
    assume e: "e \<in> set (sorted_evs evs)" and I: "sch = zero_schedule evs"
      and rf: "rf = 0 \<or> (\<exists>n. rf = max_pilot_signal iface (station_id e) - int n * increment a
            \<and> accepts iface sch (station_id e) rf \<and> (0 < n \<longrightarrow> 0 \<le> rf))"
    from e have mem: "e \<in> set evs" by (simp add: sorted_evs_def)
    then have "map_of (zero_schedule evs) (station_id e) = Some [0]"
      by (simp add: map_of_zero_schedule)
    then have triv: "AList.update (station_id e) [0] (zero_schedule evs) = zero_schedule evs"
      by (rule update_triv)
    from rf have "rf = 0"
    proof
      assume "\<exists>n. rf = max_pilot_signal iface (station_id e) - int n * increment a
            \<and> accepts iface sch (station_id e) rf \<and> (0 < n \<longrightarrow> 0 \<le> rf)"
      then obtain n where n: "rf = max_pilot_signal iface (station_id e) - int n * increment a"
        "accepts iface sch (station_id e) rf" "0 < n \<longrightarrow> 0 \<le> rf" by blast
      have "0 \<le> rf" using n(1,3) M mem by (cases n) simp_all
      with mono n(2) have "accepts iface sch (station_id e) 0"
        unfolding monotone_oracle_def by blast
      then have "is_feasible iface (zero_schedule evs) 0"
        by (simp add: accepts_def I triv)
      with base show ?thesis by simp
    qed
    then show "AList.update (station_id e) [rf] sch = zero_schedule evs"
      by (simp add: I triv)
  qed
  then show "schedule a iface evs = Some (Inr (zero_schedule evs))"
    by (auto simp: schedule_def schedule_run_def initial_world_def)
qed

theorem schedule_signals_no_error_witness:
  "0 < increment (EarliestDeadlineFirstAlgo 8) \<and> monotone_oracle (limit_iface mps_AB (- 1)) \<and>
   0 \<le> max_pilot_signal (limit_iface mps_AB (- 1)) (station_id ev_A) \<and>
   0 \<le> max_pilot_signal (limit_iface mps_AB (- 1)) (station_id ev_B) \<and>
   \<not> is_feasible (limit_iface mps_AB (- 1)) (zero_schedule [ev_A, ev_B]) 0 \<and>
   schedule (EarliestDeadlineFirstAlgo 8) (limit_iface mps_AB (- 1)) [ev_A, ev_B] =
     Some (Inr (zero_schedule [ev_A, ev_B]))"
proof -
  have pos: "0 < increment (EarliestDeadlineFirstAlgo 8)"
    by (simp add: EarliestDeadlineFirstAlgo_def)
  have mps: "\<forall>e \<in> set [ev_A, ev_B]. 0 \<le> max_pilot_signal (limit_iface mps_AB (- 1)) (station_id e)"
    by (simp add: limit_iface_def mps_AB_def ev_A_def ev_B_def)
  have z: "zero_schedule [ev_A, ev_B] = [(''A'', [0]), (''B'', [0])]"
    by code_simp
  have base: "\<not> is_feasible (limit_iface mps_AB (- 1)) (zero_schedule [ev_A, ev_B]) 0"
    unfolding z by (simp add: limit_iface_def limit_feasible_def total_rate_def)
  from schedule_signals_no_error
    [of "EarliestDeadlineFirstAlgo 8" "limit_iface mps_AB (- 1)" "[ev_A, ev_B]"]
    pos monotone_limit_iface [of mps_AB "- 1"] mps base
  have "schedule (EarliestDeadlineFirstAlgo 8) (limit_iface mps_AB (- 1)) [ev_A, ev_B] =
     Some (Inr (zero_schedule [ev_A, ev_B]))" by blast
  with pos monotone_limit_iface [of mps_AB "- 1"] mps base show ?thesis by simp
qed

end
